theory Spec2Isabelle
  imports Complex_Main "HOL-Library.AList" "HOL-Library.Option_ord"
begin

section \<open>Memory reconciliation in langmem.knowledge.extraction\<close>

text \<open>
  A shallow embedding of \<^verbatim>\<open>src/langmem/knowledge/extraction.py\<close>: the classes
  \<^verbatim>\<open>MemoryEnricher\<close> and \<^verbatim>\<open>MemoryStoreEnricher\<close>. The language model behind
  \<^verbatim>\<open>trustcall.create_extractor\<close>, the query generator and the store's search are
  collaborators outside the file; their answers are inputs of the model.
\<close>

subsection \<open>Python dictionaries\<close>

text \<open>
  A Python \<^verbatim>\<open>dict\<close> keeps its keys in insertion order: \<^verbatim>\<open>d[k] = v\<close> overwrites the
  value of a key that is present, where it stands, and appends a new key at the end;
  \<^verbatim>\<open>d.pop(k, None)\<close> removes the key, if present. The model is an association list.
\<close>

fun dict_set :: "('k \<times> 'v) list \<Rightarrow> 'k \<Rightarrow> 'v \<Rightarrow> ('k \<times> 'v) list" where
  "dict_set [] k v = [(k, v)]"
| "dict_set (p # d) k v = (if fst p = k then (k, v) # d else p # dict_set d k v)"

definition dict_pop :: "('k \<times> 'v) list \<Rightarrow> 'k \<Rightarrow> ('k \<times> 'v) list" where
  "dict_pop d k = filter (\<lambda>p. fst p \<noteq> k) d"

definition dict_get :: "('k \<times> 'v) list \<Rightarrow> 'k \<Rightarrow> 'v option" where
  "dict_get d k = map_of d k"

definition dict_has :: "('k \<times> 'v) list \<Rightarrow> 'k \<Rightarrow> bool" where
  "dict_has d k = (k \<in> set (map fst d))"

definition dict_values :: "('k \<times> 'v) list \<Rightarrow> 'v list" where
  "dict_values d = map snd d"

text \<open>The dict comprehension \<^verbatim>\<open>{key(x): val(x) for x in xs}\<close>.\<close>

definition dict_of :: "('a \<Rightarrow> 'k) \<Rightarrow> ('a \<Rightarrow> 'v) \<Rightarrow> 'a list \<Rightarrow> ('k \<times> 'v) list" where
  "dict_of key val xs = fold (\<lambda>x d. dict_set d (key x) (val x)) xs []"

subsection \<open>Data model\<close>

text \<open>
  The value of a store entry is the dictionary \<^verbatim>\<open>{"kind": ..., "content": ...}\<close> that
  the enricher writes and reads back (\<^verbatim>\<open>item.value["kind"]\<close>, \<^verbatim>\<open>item.value["content"]\<close>).
  The content is any JSON value; its type \<open>'c\<close> is left open, HOL equality standing for
  Python's \<^verbatim>\<open>==\<close> on it. A \<^verbatim>\<open>SearchItem\<close> carries the namespace, the key, the value and
  an optional relevance score; scores are finite floats, read as reals.
\<close>

record 'c mvalue =
  v_kind :: string
  v_content :: 'c

record 'c search_item =
  it_namespace :: "string list"
  it_key :: string
  it_value :: "'c mvalue"
  it_score :: "real option"

text \<open>A working record is the tuple \<^verbatim>\<open>(id, kind, content)\<close>.\<close>

type_synonym 'c mem = "string \<times> string \<times> 'c"

subsection \<open>Search aggregation: \<^verbatim>\<open>_stable_id\<close> and \<^verbatim>\<open>_sort_results\<close>\<close>

text \<open>
  \<^verbatim>\<open>uuid.uuid5(uuid.NAMESPACE_DNS, str((*item.namespace, item.key))).hex\<close>: the hash of
  the tuple made of the namespace segments followed by the key. The hash function of
  the \<^verbatim>\<open>uuid\<close> library is the parameter \<open>uuid5\<close>, applied to that tuple.
\<close>

definition stable_id :: "(string list \<Rightarrow> string) \<Rightarrow> 'c search_item \<Rightarrow> string" where
  "stable_id uuid5 item = uuid5 (it_namespace item @ [it_key item])"

text \<open>The sort key \<^verbatim>\<open>it.score if it.score is not None else float("-inf")\<close>: in the order
  on \<open>real option\<close>, \<open>None\<close> lies below every \<open>Some x\<close>.\<close>

definition score_key :: "'c search_item \<Rightarrow> real option" where
  "score_key it = it_score it"

text \<open>\<^verbatim>\<open>sorted(xs, key=f, reverse=True)\<close>: descending and stable, elements with equal
  keys keep their order. CPython reverses the list, sorts it stably in ascending order
  and reverses it again.\<close>

definition sorted_reverse :: "('a \<Rightarrow> 'k::linorder) \<Rightarrow> 'a list \<Rightarrow> 'a list" where
  "sorted_reverse f xs = rev (sort_key f (rev xs))"

text \<open>The slice \<^verbatim>\<open>xs[:n]\<close>; a negative \<open>n\<close> counts from the end.\<close>

definition slice_to :: "int \<Rightarrow> 'a list \<Rightarrow> 'a list" where
  "slice_to n xs = (if 0 \<le> n then take (nat n) xs else take (nat (int (length xs) + n)) xs)"

definition dedup_key :: "'c search_item \<Rightarrow> string list \<times> string" where
  "dedup_key item = (it_namespace item, it_key item)"

definition search_results :: "'c search_item list list \<Rightarrow> ((string list \<times> string) \<times> 'c search_item) list" where
  "search_results search_results_lists =
     fold (\<lambda>results d. fold (\<lambda>item d'. dict_set d' (dedup_key item) item) results d)
       search_results_lists []"

definition sort_results ::
  "(string list \<Rightarrow> string) \<Rightarrow> 'c search_item list list \<Rightarrow> int \<Rightarrow> (string \<times> 'c search_item) list" where
  "sort_results uuid5 search_results_lists query_limit =
     (let sorted_results =
            slice_to query_limit
              (sorted_reverse score_key (dict_values (search_results search_results_lists)))
      in dict_of (stable_id uuid5) (\<lambda>item. item) sorted_results)"

subsection \<open>Extracted memories\<close>

text \<open>
  The content of an \<^verbatim>\<open>ExtractedMemory\<close> is either an instance of a pydantic
  \<^verbatim>\<open>BaseModel\<close> or any other value. Of an instance the code reads three things:
  \<^verbatim>\<open>__repr_name__()\<close>, \<^verbatim>\<open>getattr(m, "json_doc_id", None)\<close> and
  \<^verbatim>\<open>model_dump(mode="json")\<close>. A deletion is an instance named \<^verbatim>\<open>RemoveDoc\<close>.
\<close>

datatype 'c payload =
    BaseModel (repr_name: string) (json_doc_id: "string option") (model_dump: 'c)
  | Plain 'c

type_synonym 'c extracted_memory = "string \<times> 'c payload"

subsection \<open>The merge: \<^verbatim>\<open>MemoryStoreEnricher._apply_enricher_output\<close>\<close>

type_synonym 'c mem_dict = "(string \<times> 'c mem) list"

type_synonym 'c store_map = "(string \<times> 'c search_item) list"

text \<open>\<^verbatim>\<open>removal_id and removal_id in store_map\<close>: \<^verbatim>\<open>None\<close> and the empty string are
  falsy.\<close>

definition removal_recorded :: "'c store_map \<Rightarrow> string option \<Rightarrow> bool" where
  "removal_recorded store_map removal_id =
     (case removal_id of None \<Rightarrow> False | Some d \<Rightarrow> d \<noteq> [] \<and> dict_has store_map d)"

text \<open>\<^verbatim>\<open>d.pop(removal_id, None)\<close>: the keys are strings, so popping \<^verbatim>\<open>None\<close> removes
  nothing.\<close>

definition pop_removal :: "'c mem_dict \<Rightarrow> string option \<Rightarrow> 'c mem_dict" where
  "pop_removal d removal_id = (case removal_id of None \<Rightarrow> d | Some k \<Rightarrow> dict_pop d k)"

text \<open>The last four lines of the loop body: overwrite a store-backed entry where it
  stands, otherwise write the ephemeral entry.\<close>

definition upsert ::
  "string \<Rightarrow> string \<Rightarrow> 'c \<Rightarrow> 'c mem_dict \<times> 'c mem_dict \<times> string list
     \<Rightarrow> 'c mem_dict \<times> 'c mem_dict \<times> string list" where
  "upsert sid new_kind new_content st =
     (case st of (store_dict, ephemeral_dict, removed_ids) \<Rightarrow>
        if dict_has store_dict sid
        then (dict_set store_dict sid (sid, new_kind, new_content),
              ephemeral_dict, removed_ids)
        else (store_dict,
              dict_set ephemeral_dict sid (sid, new_kind, new_content),
              removed_ids))"

text \<open>\<^verbatim>\<open>store_dict.get(stable_id, (stable_id, "Memory", {}))[1]\<close>\<close>

definition carried_kind :: "'c mem_dict \<Rightarrow> string \<Rightarrow> string" where
  "carried_kind store_dict sid =
     (case dict_get store_dict sid of None \<Rightarrow> ''Memory'' | Some m \<Rightarrow> fst (snd m))"

text \<open>One turn of the loop \<^verbatim>\<open>for extracted in enricher_output\<close>.\<close>

fun apply_extracted ::
  "'c store_map \<Rightarrow> 'c extracted_memory \<Rightarrow> 'c mem_dict \<times> 'c mem_dict \<times> string list
     \<Rightarrow> 'c mem_dict \<times> 'c mem_dict \<times> string list" where
  "apply_extracted store_map (sid, BaseModel name removal_id dump)
       (store_dict, ephemeral_dict, removed_ids) =
     (if name = ''RemoveDoc''
      then (pop_removal store_dict removal_id, pop_removal ephemeral_dict removal_id,
            if removal_recorded store_map removal_id
            then removed_ids @ [the removal_id] else removed_ids)
      else upsert sid name dump (store_dict, ephemeral_dict, removed_ids))"
| "apply_extracted store_map (sid, Plain model_data)
       (store_dict, ephemeral_dict, removed_ids) =
     upsert sid (carried_kind store_dict sid) model_data
       (store_dict, ephemeral_dict, removed_ids)"

definition apply_enricher_output ::
  "'c extracted_memory list \<Rightarrow> 'c mem list \<Rightarrow> 'c store_map \<Rightarrow> 'c mem list
     \<Rightarrow> 'c mem list \<times> 'c mem list \<times> string list" where
  "apply_enricher_output enricher_output store_based store_map ephemeral =
     (let store_dict = dict_of fst (\<lambda>m. m) store_based;
          ephemeral_dict = dict_of fst (\<lambda>m. m) ephemeral
      in case fold (apply_extracted store_map) enricher_output
                (store_dict, ephemeral_dict, [])
         of (store_dict', ephemeral_dict', removed_ids) \<Rightarrow>
              (dict_values store_dict', dict_values ephemeral_dict', removed_ids))"

subsection \<open>\<^verbatim>\<open>MemoryEnricher\<close>\<close>

text \<open>
  A schema is a pydantic class: its name, and the dump of the instance that
  \<^verbatim>\<open>cls(content=ex)\<close> builds from a string. \<^verbatim>\<open>__init__\<close> stores
  \<^verbatim>\<open>schemas or (Memory,)\<close>, a sequence that is never empty: the model keeps its first
  element apart from the others.
\<close>

record 'c schema =
  schema_name :: string
  schema_dump :: "string \<Rightarrow> 'c"

record 'c memory_enricher =
  instructions :: string
  first_schema :: "'c schema"
  other_schemas :: "'c schema list"
  enable_inserts :: bool
  enable_deletes :: bool

text \<open>
  The argument \<^verbatim>\<open>existing\<close>: a list of strings, or a list of tuples
  \<^verbatim>\<open>(id, value)\<close> and \<^verbatim>\<open>(id, kind, value)\<close>.
\<close>

datatype 'c existing_item =
    IdValue string "'c payload"
  | IdKindValue string string "'c payload"

datatype 'c existing = Strings "string list" | Tuples "'c existing_item list"

type_synonym 'c prepared = "(string \<times> string \<times> 'c payload) list"

text \<open>
  \<^verbatim>\<open>uuid.uuid4()\<close> reads the random source of the operating system. The model makes
  the source explicit: \<open>uuid4 n\<close> is the \<open>n\<close>-th identifier it yields, and every function
  that draws identifiers takes the number of draws made so far and returns the new one.
\<close>

fun prepare_item :: "'c existing_item \<Rightarrow> string \<times> string \<times> 'c payload" where
  "prepare_item (IdKindValue i k v) = (i, k, v)"
| "prepare_item (IdValue i v) =
     (i, (case v of BaseModel name _ _ \<Rightarrow> name | Plain _ \<Rightarrow> ''__any__''), v)"

fun prepare_existing ::
  "'c memory_enricher \<Rightarrow> (nat \<Rightarrow> string) \<Rightarrow> 'c existing option \<Rightarrow> nat \<Rightarrow> 'c prepared \<times> nat" where
  "prepare_existing self uuid4 None n = ([], n)"
| "prepare_existing self uuid4 (Some (Strings exs)) n =
     (map (\<lambda>(i, ex). (uuid4 (n + i), ''Memory'',
                       BaseModel (schema_name (first_schema self)) None
                         (schema_dump (first_schema self) ex)))
        (enumerate 0 exs),
      n + length exs)"
| "prepare_existing self uuid4 (Some (Tuples es)) n = (map prepare_item es, n)"

text \<open>
  The extractor built by \<^verbatim>\<open>trustcall.create_extractor\<close> from the enricher's model,
  schemas and flags, called on the prepared messages (the instructions, a session
  identifier and the conversation) and the prepared existing memories. Its answer is read
  as \<^verbatim>\<open>zip(response["responses"], response["response_metadata"])\<close>: each response with
  the \<^verbatim>\<open>json_doc_id\<close> of its metadata, if the metadata has one.
\<close>

type_synonym 'c response = "('c payload \<times> string option) list"

type_synonym ('m, 'c) extractor =
  "'c memory_enricher \<Rightarrow> string \<Rightarrow> 'm list \<Rightarrow> 'c prepared \<Rightarrow> 'c response"

text \<open>\<^verbatim>\<open>[(rmeta.get("json_doc_id", str(uuid.uuid4())), r) for r, rmeta in zip(...)]\<close>:
  Python evaluates the default before the call, so one identifier is drawn for every
  response, used or not.\<close>

definition results_of :: "(nat \<Rightarrow> string) \<Rightarrow> nat \<Rightarrow> 'c response \<Rightarrow> 'c extracted_memory list" where
  "results_of uuid4 n response =
     map (\<lambda>(i, (r, rmeta)). (case rmeta of Some d \<Rightarrow> d | None \<Rightarrow> uuid4 (n + i), r))
       (enumerate 0 response)"

text \<open>\<^verbatim>\<open># Merge in any existing memories not updated.\<close>\<close>

definition merge_existing :: "'c prepared \<Rightarrow> 'c extracted_memory list \<Rightarrow> 'c extracted_memory list" where
  "merge_existing prepared_existing results =
     fold (\<lambda>mem_tuple res.
             case mem_tuple of (mem_id, _, mem) \<Rightarrow>
               if mem_id \<in> set (map fst res) then res else res @ [(mem_id, mem)])
       prepared_existing results"

definition MemoryEnricher_ainvoke ::
  "('m, 'c) extractor \<Rightarrow> (nat \<Rightarrow> string) \<Rightarrow> 'c memory_enricher \<Rightarrow> 'm list \<Rightarrow> 'c existing option
     \<Rightarrow> nat \<Rightarrow> 'c extracted_memory list \<times> nat" where
  "MemoryEnricher_ainvoke extractor uuid4 self messages existing n =
     (let session = uuid4 n;
          (prepared_existing, n1) = prepare_existing self uuid4 existing (Suc n);
          response = extractor self session messages prepared_existing;
          results = results_of uuid4 n1 response
      in (merge_existing prepared_existing results, n1 + length response))"

definition MemoryEnricher_invoke ::
  "('m, 'c) extractor \<Rightarrow> (nat \<Rightarrow> string) \<Rightarrow> 'c memory_enricher \<Rightarrow> 'm list \<Rightarrow> 'c existing option
     \<Rightarrow> nat \<Rightarrow> 'c extracted_memory list \<times> nat" where
  "MemoryEnricher_invoke extractor uuid4 self messages existing n =
     (let session = uuid4 n;
          (prepared_existing, n1) = prepare_existing self uuid4 existing (Suc n);
          response = extractor self session messages prepared_existing;
          results = results_of uuid4 n1 response
      in (merge_existing prepared_existing results, n1 + length response))"

subsection \<open>\<^verbatim>\<open>MemoryStoreEnricher\<close>\<close>

text \<open>A \<^verbatim>\<open>MemoryPhase\<close> is a \<^verbatim>\<open>TypedDict\<close> with \<^verbatim>\<open>total=False\<close>: every key may be
  absent.\<close>

record memory_phase =
  ph_instructions :: "string option"
  ph_include_messages :: "bool option"
  ph_enable_inserts :: "bool option"
  ph_enable_deletes :: "bool option"

text \<open>The fields \<^verbatim>\<open>schemas\<close>, \<^verbatim>\<open>instructions\<close>, \<^verbatim>\<open>enable_inserts\<close> and
  \<^verbatim>\<open>enable_deletes\<close> are those given to \<^verbatim>\<open>self.memory_enricher\<close>, and are read
  from it.\<close>

record 'c memory_store_enricher =
  memory_enricher :: "'c memory_enricher"
  query_limit :: int
  phases :: "memory_phase list"

definition build_phase_enricher :: "'c memory_store_enricher \<Rightarrow> memory_phase \<Rightarrow> 'c memory_enricher" where
  "build_phase_enricher self phase =
     \<lparr>instructions =
        (case ph_instructions phase of
           None \<Rightarrow> ''You are a memory manager. Deduplicate, consolidate, and enrich these memories.''
         | Some i \<Rightarrow> i),
      first_schema = first_schema (memory_enricher self),
      other_schemas = other_schemas (memory_enricher self),
      enable_inserts = (case ph_enable_inserts phase of None \<Rightarrow> True | Some b \<Rightarrow> b),
      enable_deletes = (case ph_enable_deletes phase of None \<Rightarrow> True | Some b \<Rightarrow> b)\<rparr>"

text \<open>The working records handed to an enricher as \<^verbatim>\<open>existing\<close>: tuples
  \<^verbatim>\<open>(id, kind, content)\<close> whose content is a stored JSON value, never a model
  instance.\<close>

definition existing_of :: "'c mem list \<Rightarrow> 'c existing" where
  "existing_of mems = Tuples (map (\<lambda>(sid, kind, content). IdKindValue sid kind (Plain content)) mems)"

text \<open>\<^verbatim>\<open>removed_ids\<close> is a Python set, \<^verbatim>\<open>removed_ids.update(removed)\<close> adds the
  elements of a list to it. The model keeps the elements in a list without repetition,
  in the order of their first insertion; the order in which Python iterates over a set
  is not specified.\<close>

definition set_update :: "'a list \<Rightarrow> 'a list \<Rightarrow> 'a list" where
  "set_update s xs = fold (\<lambda>x acc. if x \<in> set acc then acc else acc @ [x]) xs s"

record 'c put =
  put_namespace :: "string list"
  put_key :: string
  put_value :: "'c mvalue"

text \<open>The body of the loop \<^verbatim>\<open>for sid, kind, content in final_mem\<close>: the put that a
  record contributes, if any.\<close>

definition final_put :: "string list \<Rightarrow> 'c store_map \<Rightarrow> string list \<Rightarrow> 'c mem \<Rightarrow> 'c put option" where
  "final_put namespace store_map removed_ids m =
     (case m of (sid, kind, content) \<Rightarrow>
        if sid \<in> set removed_ids then None
        else (case dict_get store_map sid of
                Some old_art \<Rightarrow>
                  if v_kind (it_value old_art) \<noteq> kind \<or> v_content (it_value old_art) \<noteq> content
                  then Some \<lparr>put_namespace = it_namespace old_art, put_key = it_key old_art,
                             put_value = \<lparr>v_kind = kind, v_content = content\<rparr>\<rparr>
                  else None
              | None \<Rightarrow>
                  Some \<lparr>put_namespace = namespace, put_key = sid,
                         put_value = \<lparr>v_kind = kind, v_content = content\<rparr>\<rparr>))"

definition final_puts :: "string list \<Rightarrow> 'c store_map \<Rightarrow> string list \<Rightarrow> 'c mem list \<Rightarrow> 'c put list" where
  "final_puts namespace store_map removed_ids final_mem =
     List.map_filter (final_put namespace store_map removed_ids) final_mem"

definition final_deletes :: "'c store_map \<Rightarrow> string list \<Rightarrow> (string list \<times> string) list" where
  "final_deletes store_map removed_ids =
     List.map_filter
       (\<lambda>sid. case dict_get store_map sid of
                 Some art \<Rightarrow> Some (it_namespace art, it_key art)
               | None \<Rightarrow> None)
       removed_ids"

text \<open>
  The store maps \<^verbatim>\<open>(namespace, key)\<close> to a value. The run hands its puts and then its
  deletes to \<^verbatim>\<open>asyncio.gather\<close> (or submits them to the executor in that order); the
  model applies them in that order. \<open>store_apply\<close> is a write that the store accepts;
  writes that the store refuses come with \<open>ainvoke_fallible\<close> and \<open>invoke_fallible\<close>.
\<close>

type_synonym 'c store = "string list \<times> string \<Rightarrow> 'c mvalue option"

datatype 'c store_op = Put "'c put" | Delete "string list \<times> string"

fun store_apply :: "'c store_op \<Rightarrow> 'c store \<Rightarrow> 'c store" where
  "store_apply (Put p) store = store((put_namespace p, put_key p) \<mapsto> put_value p)"
| "store_apply (Delete loc) store = store(loc := None)"

text \<open>What a run leaves: the list it returns, the operations it issued on the store
  and the store after them, and the last values of its local variables.\<close>

record 'c run =
  returned :: "'c put list"
  issued :: "'c store_op list"
  store_after :: "'c store"
  last_store_based :: "'c mem list"
  last_ephemeral :: "'c mem list"
  last_removed_ids :: "string list"
  draws :: nat

type_synonym 'c work = "'c mem list \<times> 'c mem list \<times> string list \<times> nat"

text \<open>The first enrichment, with \<^verbatim>\<open>"existing": store_based\<close>.\<close>

definition enrich_async ::
  "('m, 'c) extractor \<Rightarrow> (nat \<Rightarrow> string) \<Rightarrow> 'c memory_store_enricher \<Rightarrow> 'm list \<Rightarrow> 'c store_map
     \<Rightarrow> 'c work \<Rightarrow> 'c work" where
  "enrich_async extractor uuid4 self messages store_map w =
     (case w of (store_based, ephemeral, removed_ids, n) \<Rightarrow>
        case MemoryEnricher_ainvoke extractor uuid4 (memory_enricher self) messages
               (Some (existing_of store_based)) n
        of (enriched, n') \<Rightarrow>
          case apply_enricher_output enriched store_based store_map ephemeral
          of (store_based', ephemeral', removed) \<Rightarrow>
            (store_based', ephemeral', set_update removed_ids removed, n'))"

text \<open>One turn of the loop \<^verbatim>\<open>for phase in self.phases\<close>.\<close>

definition phase_async ::
  "('m, 'c) extractor \<Rightarrow> (nat \<Rightarrow> string) \<Rightarrow> 'c memory_store_enricher \<Rightarrow> 'm list \<Rightarrow> 'c store_map
     \<Rightarrow> memory_phase \<Rightarrow> 'c work \<Rightarrow> 'c work" where
  "phase_async extractor uuid4 self messages store_map phase w =
     (case w of (store_based, ephemeral, removed_ids, n) \<Rightarrow>
        let phase_enricher = build_phase_enricher self phase;
            phase_messages =
              (if (case ph_include_messages phase of None \<Rightarrow> False | Some b \<Rightarrow> b)
               then messages else [])
        in case MemoryEnricher_ainvoke extractor uuid4 phase_enricher phase_messages
                  (Some (existing_of (store_based @ ephemeral))) n
           of (phase_enriched, n') \<Rightarrow>
             case apply_enricher_output phase_enriched store_based store_map ephemeral
             of (store_based', ephemeral', removed) \<Rightarrow>
               (store_based', ephemeral', set_update removed_ids removed, n'))"

definition seed_store_based :: "'c store_map \<Rightarrow> 'c mem list" where
  "seed_store_based store_map =
     map (\<lambda>(sid, item). (sid, v_kind (it_value item), v_content (it_value item))) store_map"

text \<open>
  \<^verbatim>\<open>MemoryStoreEnricher.ainvoke\<close>. The resolved namespace, the messages, the lists that
  the store's searches returned and the store are inputs.
\<close>

definition ainvoke ::
  "('m, 'c) extractor \<Rightarrow> (nat \<Rightarrow> string) \<Rightarrow> (string list \<Rightarrow> string) \<Rightarrow> 'c memory_store_enricher
     \<Rightarrow> string list \<Rightarrow> 'm list \<Rightarrow> 'c search_item list list \<Rightarrow> 'c store \<Rightarrow> nat \<Rightarrow> 'c run" where
  "ainvoke extractor uuid4 uuid5 self namespace messages search_results_lists store n =
     (let store_map = sort_results uuid5 search_results_lists (query_limit self);
          store_based = seed_store_based store_map
      in case fold (phase_async extractor uuid4 self messages store_map) (phases self)
                (enrich_async extractor uuid4 self messages store_map (store_based, [], [], n))
         of (store_based', ephemeral, removed_ids, n') \<Rightarrow>
           let final_mem = store_based' @ ephemeral;
               puts = final_puts namespace store_map removed_ids final_mem;
               dels = final_deletes store_map removed_ids;
               ops = map Put puts @ map Delete dels
           in \<lparr>returned = puts, issued = ops, store_after = fold store_apply ops store,
               last_store_based = store_based', last_ephemeral = ephemeral,
               last_removed_ids = removed_ids, draws = n'\<rparr>)"

definition enrich_sync ::
  "('m, 'c) extractor \<Rightarrow> (nat \<Rightarrow> string) \<Rightarrow> 'c memory_store_enricher \<Rightarrow> 'm list \<Rightarrow> 'c store_map
     \<Rightarrow> 'c work \<Rightarrow> 'c work" where
  "enrich_sync extractor uuid4 self messages store_map w =
     (case w of (store_based, ephemeral, removed_ids, n) \<Rightarrow>
        case MemoryEnricher_invoke extractor uuid4 (memory_enricher self) messages
               (Some (existing_of store_based)) n
        of (enriched, n') \<Rightarrow>
          case apply_enricher_output enriched store_based store_map ephemeral
          of (store_based', ephemeral', removed) \<Rightarrow>
            (store_based', ephemeral', set_update removed_ids removed, n'))"

definition phase_sync ::
  "('m, 'c) extractor \<Rightarrow> (nat \<Rightarrow> string) \<Rightarrow> 'c memory_store_enricher \<Rightarrow> 'm list \<Rightarrow> 'c store_map
     \<Rightarrow> memory_phase \<Rightarrow> 'c work \<Rightarrow> 'c work" where
  "phase_sync extractor uuid4 self messages store_map phase w =
     (case w of (store_based, ephemeral, removed_ids, n) \<Rightarrow>
        let phase_enricher = build_phase_enricher self phase;
            phase_messages =
              (if (case ph_include_messages phase of None \<Rightarrow> False | Some b \<Rightarrow> b)
               then messages else [])
        in case MemoryEnricher_invoke extractor uuid4 phase_enricher phase_messages
                  (Some (existing_of (store_based @ ephemeral))) n
           of (phase_enriched, n') \<Rightarrow>
             case apply_enricher_output phase_enriched store_based store_map ephemeral
             of (store_based', ephemeral', removed) \<Rightarrow>
               (store_based', ephemeral', set_update removed_ids removed, n'))"

text \<open>
  \<^verbatim>\<open>MemoryStoreEnricher.invoke\<close>, the blocking path: the searches, the puts and the
  deletes go through the executor of the configuration, the enrichers are called with
  \<^verbatim>\<open>invoke\<close>.
\<close>

definition invoke ::
  "('m, 'c) extractor \<Rightarrow> (nat \<Rightarrow> string) \<Rightarrow> (string list \<Rightarrow> string) \<Rightarrow> 'c memory_store_enricher
     \<Rightarrow> string list \<Rightarrow> 'm list \<Rightarrow> 'c search_item list list \<Rightarrow> 'c store \<Rightarrow> nat \<Rightarrow> 'c run" where
  "invoke extractor uuid4 uuid5 self namespace messages search_results_lists store n =
     (let store_map = sort_results uuid5 search_results_lists (query_limit self);
          store_based = seed_store_based store_map
      in case fold (phase_sync extractor uuid4 self messages store_map) (phases self)
                (enrich_sync extractor uuid4 self messages store_map (store_based, [], [], n))
         of (store_based', ephemeral, removed_ids, n') \<Rightarrow>
           let final_mem = store_based' @ ephemeral;
               puts = final_puts namespace store_map removed_ids final_mem;
               dels = final_deletes store_map removed_ids;
               ops = map Put puts @ map Delete dels
           in \<lparr>returned = puts, issued = ops, store_after = fold store_apply ops store,
               last_store_based = store_based', last_ephemeral = ephemeral,
               last_removed_ids = removed_ids, draws = n'\<rparr>)"

subsection \<open>Store writes that fail\<close>

text \<open>
  The runs above are runs on a store that accepts every put and every delete. A store
  may refuse a write: \<open>fails op\<close> says that the call of \<^verbatim>\<open>put\<close> or \<^verbatim>\<open>delete\<close> for \<open>op\<close>
  raises, and a refused write leaves the store as it is.
\<close>

datatype error = StoreWriteError

text \<open>
  \<^verbatim>\<open>await asyncio.gather(*puts, *deletes)\<close>, the last step of \<^verbatim>\<open>ainvoke\<close>: the exception
  of a refused write propagates to the caller, and the \<^verbatim>\<open>return\<close> that follows is not
  reached. What the store holds at that moment depends on the schedule of the other
  writes and is left out.
\<close>

definition asyncio_gather ::
  "('c store_op \<Rightarrow> bool) \<Rightarrow> 'c store_op list \<Rightarrow> 'c store \<Rightarrow> error + 'c store" where
  "asyncio_gather fails ops store =
     (if list_ex fails ops then Inl StoreWriteError else Inr (fold store_apply ops store))"

text \<open>
  \<^verbatim>\<open>executor.submit(store.put, **put)\<close> and \<^verbatim>\<open>executor.submit(store.delete, ns, key)\<close> in a
  \<^verbatim>\<open>with\<close> block, the last step of \<^verbatim>\<open>invoke\<close>: the block waits for every call, and the
  futures are never read, so the exception of a refused write stays in its future.
\<close>

definition executor_submit ::
  "('c store_op \<Rightarrow> bool) \<Rightarrow> 'c store_op list \<Rightarrow> 'c store \<Rightarrow> 'c store" where
  "executor_submit fails ops store = fold store_apply (filter (\<lambda>op. \<not> fails op) ops) store"

text \<open>\<^verbatim>\<open>MemoryStoreEnricher.ainvoke\<close> on a store that may refuse writes.\<close>

definition ainvoke_fallible ::
  "('c store_op \<Rightarrow> bool) \<Rightarrow> ('m, 'c) extractor \<Rightarrow> (nat \<Rightarrow> string) \<Rightarrow> (string list \<Rightarrow> string)
     \<Rightarrow> 'c memory_store_enricher \<Rightarrow> string list \<Rightarrow> 'm list \<Rightarrow> 'c search_item list list
     \<Rightarrow> 'c store \<Rightarrow> nat \<Rightarrow> error + 'c run" where
  "ainvoke_fallible fails extractor uuid4 uuid5 self namespace messages search_results_lists store n =
     (let store_map = sort_results uuid5 search_results_lists (query_limit self);
          store_based = seed_store_based store_map
      in case fold (phase_async extractor uuid4 self messages store_map) (phases self)
                (enrich_async extractor uuid4 self messages store_map (store_based, [], [], n))
         of (store_based', ephemeral, removed_ids, n') \<Rightarrow>
           let final_mem = store_based' @ ephemeral;
               puts = final_puts namespace store_map removed_ids final_mem;
               dels = final_deletes store_map removed_ids;
               ops = map Put puts @ map Delete dels
           in (case asyncio_gather fails ops store of
                 Inl e \<Rightarrow> Inl e
               | Inr store' \<Rightarrow>
                   Inr \<lparr>returned = puts, issued = ops, store_after = store',
                        last_store_based = store_based', last_ephemeral = ephemeral,
                        last_removed_ids = removed_ids, draws = n'\<rparr>))"

text \<open>\<^verbatim>\<open>MemoryStoreEnricher.invoke\<close> on a store that may refuse writes.\<close>

definition invoke_fallible ::
  "('c store_op \<Rightarrow> bool) \<Rightarrow> ('m, 'c) extractor \<Rightarrow> (nat \<Rightarrow> string) \<Rightarrow> (string list \<Rightarrow> string)
     \<Rightarrow> 'c memory_store_enricher \<Rightarrow> string list \<Rightarrow> 'm list \<Rightarrow> 'c search_item list list
     \<Rightarrow> 'c store \<Rightarrow> nat \<Rightarrow> error + 'c run" where
  "invoke_fallible fails extractor uuid4 uuid5 self namespace messages search_results_lists store n =
     (let store_map = sort_results uuid5 search_results_lists (query_limit self);
          store_based = seed_store_based store_map
      in case fold (phase_sync extractor uuid4 self messages store_map) (phases self)
                (enrich_sync extractor uuid4 self messages store_map (store_based, [], [], n))
         of (store_based', ephemeral, removed_ids, n') \<Rightarrow>
           let final_mem = store_based' @ ephemeral;
               puts = final_puts namespace store_map removed_ids final_mem;
               dels = final_deletes store_map removed_ids;
               ops = map Put puts @ map Delete dels
           in Inr \<lparr>returned = puts, issued = ops, store_after = executor_submit fails ops store,
                   last_store_based = store_based', last_ephemeral = ephemeral,
                   last_removed_ids = removed_ids, draws = n'\<rparr>)"

subsection \<open>Invariants of a run\<close>

text \<open>A dictionary of working records is keyed by the identifier of each record.\<close>

definition keyed :: "'c mem_dict \<Rightarrow> bool" where
  "keyed d = (\<forall>p \<in> set d. fst (snd p) = fst p)"

text \<open>
  The state of the loop of the merge, where \<open>K\<close> holds the identifiers of the store
  snapshot and \<open>R\<close> those retired by earlier phases: a store-backed record is in the
  snapshot and not retired; an identifier of the snapshot that is no longer store-backed
  is retired.
\<close>

definition merge_inv :: "string set \<Rightarrow> string set \<Rightarrow> 'c mem_dict \<times> 'c mem_dict \<times> string list \<Rightarrow> bool" where
  "merge_inv K R st =
     (case st of (sd, ed, rm) \<Rightarrow>
        distinct (map fst sd) \<and> distinct (map fst ed) \<and> keyed sd \<and> keyed ed \<and>
        fst ` set sd \<subseteq> K \<and> fst ` set sd \<inter> (R \<union> set rm) = {} \<and>
        fst ` set ed \<inter> K \<subseteq> R \<union> set rm \<and>
        set rm \<subseteq> K \<and> K - fst ` set sd \<subseteq> R \<union> set rm)"

text \<open>The same between two phases.\<close>

definition work_inv :: "string set \<Rightarrow> 'c work \<Rightarrow> bool" where
  "work_inv K w =
     (case w of (sb, eph, removed, n) \<Rightarrow>
        distinct (map fst sb) \<and> distinct (map fst eph) \<and>
        fst ` set sb \<subseteq> K \<and> fst ` set sb \<inter> set removed = {} \<and>
        fst ` set eph \<inter> K \<subseteq> set removed \<and> set removed \<subseteq> K \<and>
        K - fst ` set sb \<subseteq> set removed \<and> distinct removed)"

subsection \<open>The persistence plan in the words of the specification\<close>

text \<open>
  The specification describes the plan by cases: a put at the original place for every
  surviving store-backed record whose kind or content differs from the snapshot, a put
  in the target namespace under its own identifier for every surviving ephemeral record,
  a delete at the original place for every retired identifier of the snapshot. A record
  survives when its identifier is not retired.
\<close>

definition put_at :: "string list \<Rightarrow> string \<Rightarrow> string \<Rightarrow> 'c \<Rightarrow> 'c put" where
  "put_at ns k kind content =
     \<lparr>put_namespace = ns, put_key = k, put_value = \<lparr>v_kind = kind, v_content = content\<rparr>\<rparr>"

definition spec_changed_put :: "'c store_map \<Rightarrow> 'c mem \<Rightarrow> 'c put option" where
  "spec_changed_put store_map m =
     (case m of (sid, kind, content) \<Rightarrow>
        (case dict_get store_map sid of
           None \<Rightarrow> None
         | Some art \<Rightarrow>
             if (kind, content) = (v_kind (it_value art), v_content (it_value art)) then None
             else Some (put_at (it_namespace art) (it_key art) kind content)))"

definition spec_puts ::
  "string list \<Rightarrow> 'c store_map \<Rightarrow> string list \<Rightarrow> 'c mem list \<Rightarrow> 'c mem list \<Rightarrow> 'c put list" where
  "spec_puts namespace store_map retired store_based ephemeral =
     List.map_filter (spec_changed_put store_map)
       (filter (\<lambda>m. fst m \<notin> set retired) store_based) @
     map (\<lambda>m. case m of (sid, kind, content) \<Rightarrow> put_at namespace sid kind content)
       (filter (\<lambda>m. fst m \<notin> set retired) ephemeral)"

definition spec_deletes :: "'c store_map \<Rightarrow> string list \<Rightarrow> (string list \<times> string) list" where
  "spec_deletes store_map retired =
     concat (map (\<lambda>sid. case dict_get store_map sid of
                            None \<Rightarrow> []
                          | Some art \<Rightarrow> [(it_namespace art, it_key art)]) retired)"

subsection \<open>A concrete run\<close>

text \<open>Concrete collaborators, on which the theorems below are exercised: hash and
  random source, store entries of one user, an enricher with the default schema.\<close>

definition ex_uuid5 :: "string list \<Rightarrow> string" where
  "ex_uuid5 t = CHR ''#'' # concat t"

definition ex_uuid4 :: "nat \<Rightarrow> string" where
  "ex_uuid4 n = replicate (Suc n) CHR ''u''"

definition ex_item :: "string \<Rightarrow> string \<Rightarrow> real option \<Rightarrow> string search_item" where
  "ex_item k c s =
     \<lparr>it_namespace = [''memories'', ''u1''], it_key = k,
      it_value = \<lparr>v_kind = ''Memory'', v_content = c\<rparr>, it_score = s\<rparr>"

definition ex_enricher :: "string memory_enricher" where
  "ex_enricher =
     \<lparr>instructions = ''main'',
      first_schema = \<lparr>schema_name = ''Memory'', schema_dump = (\<lambda>s. s)\<rparr>,
      other_schemas = [], enable_inserts = True, enable_deletes = True\<rparr>"

definition ex_phase :: memory_phase where
  "ex_phase = \<lparr>ph_instructions = Some ''dedup'', ph_include_messages = None,
               ph_enable_inserts = None, ph_enable_deletes = None\<rparr>"

definition ex_self :: "memory_phase list \<Rightarrow> string memory_store_enricher" where
  "ex_self ps = \<lparr>memory_enricher = ex_enricher, query_limit = 5, phases = ps\<rparr>"

text \<open>An extractor that answers the first enrichment with \<open>first\<close> and every phase with \<open>later\<close>.\<close>

definition ex_extractor :: "string response \<Rightarrow> string response \<Rightarrow> (string, string) extractor" where
  "ex_extractor first later e session messages prepared =
     (if instructions e = ''main'' then first else later)"

definition ex_run1 :: "string run" where
  "ex_run1 = ainvoke
     (ex_extractor
        [(BaseModel ''Memory'' None ''likes pasta'', Some ''#memoriesu1k1''),
         (BaseModel ''RemoveDoc'' (Some ''#memoriesu1k2'') '''', Some ''#memoriesu1k2''),
         (BaseModel ''Memory'' None ''has a dog'', None)] [])
     ex_uuid4 ex_uuid5 (ex_self [ex_phase]) [''memories'', ''u1''] [''hello'']
     [[ex_item ''k1'' ''likes sushi'' (Some (9/10)), ex_item ''k2'' ''old'' None], [ex_item ''k3'' ''keep'' (Some (7/10))]] Map.empty 0"


definition ex_run2 :: "string run" where
  "ex_run2 = ainvoke
     (ex_extractor
        [(BaseModel ''Memory'' None ''has a dog'', None)]
        [(BaseModel ''RemoveDoc'' (Some ''uu'') '''', Some ''uu''),
         (BaseModel ''Memory'' None ''has a cat'', Some ''uu'')])
     ex_uuid4 ex_uuid5 (ex_self [ex_phase]) [''memories'', ''u1''] [''hello'']
     [] Map.empty 0"

text \<open>A run that extracts one structured memory, without and with a later phase in
  which the extractor proposes nothing.\<close>

definition ex_run3 :: "memory_phase list \<Rightarrow> string run" where
  "ex_run3 ps = ainvoke
     (ex_extractor [(BaseModel ''PreferenceMemory'' None ''dark mode'', None)] [])
     ex_uuid4 ex_uuid5 (ex_self ps) [''memories'', ''u1''] [''hello'']
     [] Map.empty 0"

subsection \<open>Words for the operations\<close>

text \<open>An operation deletes when its content is a \<^verbatim>\<open>RemoveDoc\<close>; any other operation
  writes a record, with the kind and the content that the merge gives it when no
  store-backed record has its identifier.\<close>

definition is_removal :: "'c payload \<Rightarrow> bool" where
  "is_removal p = (case p of BaseModel name _ _ \<Rightarrow> name = ''RemoveDoc'' | Plain _ \<Rightarrow> False)"

definition written_kind :: "'c payload \<Rightarrow> string" where
  "written_kind p = (case p of BaseModel name _ _ \<Rightarrow> name | Plain _ \<Rightarrow> ''Memory'')"

definition written_content :: "'c payload \<Rightarrow> 'c" where
  "written_content p = (case p of BaseModel _ _ dump \<Rightarrow> dump | Plain c \<Rightarrow> c)"

subsection \<open>What a step of a run sees\<close>

text \<open>The components of the working state between two phases, and the operations that
  the enricher returns in the first enrichment and in a phase.\<close>

definition store_based_of :: "'c work \<Rightarrow> 'c mem list" where
  "store_based_of w = (case w of (store_based, ephemeral, removed_ids, n) \<Rightarrow> store_based)"

definition ephemeral_of :: "'c work \<Rightarrow> 'c mem list" where
  "ephemeral_of w = (case w of (store_based, ephemeral, removed_ids, n) \<Rightarrow> ephemeral)"

definition removed_of :: "'c work \<Rightarrow> string list" where
  "removed_of w = (case w of (store_based, ephemeral, removed_ids, n) \<Rightarrow> removed_ids)"

text \<open>The candidate context of the next phase: \<^verbatim>\<open>store_based + ephemeral\<close>.\<close>

definition context_of :: "'c work \<Rightarrow> 'c mem list" where
  "context_of w = store_based_of w @ ephemeral_of w"

definition first_enriched ::
  "('m, 'c) extractor \<Rightarrow> (nat \<Rightarrow> string) \<Rightarrow> 'c memory_store_enricher \<Rightarrow> 'm list
     \<Rightarrow> 'c work \<Rightarrow> 'c extracted_memory list" where
  "first_enriched extractor uuid4 self messages w =
     (case w of (store_based, ephemeral, removed_ids, n) \<Rightarrow>
        fst (MemoryEnricher_ainvoke extractor uuid4 (memory_enricher self) messages
               (Some (existing_of store_based)) n))"

definition phase_enriched ::
  "('m, 'c) extractor \<Rightarrow> (nat \<Rightarrow> string) \<Rightarrow> 'c memory_store_enricher \<Rightarrow> 'm list
     \<Rightarrow> memory_phase \<Rightarrow> 'c work \<Rightarrow> 'c extracted_memory list" where
  "phase_enriched extractor uuid4 self messages phase w =
     (case w of (store_based, ephemeral, removed_ids, n) \<Rightarrow>
        fst (MemoryEnricher_ainvoke extractor uuid4 (build_phase_enricher self phase)
               (if (case ph_include_messages phase of None \<Rightarrow> False | Some b \<Rightarrow> b)
                then messages else [])
               (Some (existing_of (store_based @ ephemeral))) n))"

text \<open>The first enrichment and every phase apply the operations of the enricher to the
  working state: \<open>w'\<close> is what the operations \<open>es\<close> make of \<open>w\<close>.\<close>

definition absorbs :: "'c store_map \<Rightarrow> 'c extracted_memory list \<Rightarrow> 'c work \<Rightarrow> 'c work \<Rightarrow> bool" where
  "absorbs store_map es w w' =
     (\<exists>sb' eph' rm. apply_enricher_output es (store_based_of w) store_map (ephemeral_of w) = (sb', eph', rm)
        \<and> store_based_of w' = sb' \<and> ephemeral_of w' = eph' \<and> removed_of w' = set_update (removed_of w) rm)"

text \<open>What the enricher returns for existing memories that the extractor left
  untouched: their identifier and their content.\<close>

definition passed_through :: "'c mem list \<Rightarrow> 'c extracted_memory list" where
  "passed_through ms = map (\<lambda>m. case m of (sid, kind, content) \<Rightarrow> (sid, Plain content)) ms"

text \<open>The working state before the first enrichment of \<open>ex_run1\<close>, and a variant of that
  run whose phase writes again under the identifier that the first enrichment retired.\<close>

definition ex_srl1 :: "string search_item list list" where
  "ex_srl1 = [[ex_item ''k1'' ''likes sushi'' (Some (9/10)), ex_item ''k2'' ''old'' None],
              [ex_item ''k3'' ''keep'' (Some (7/10))]]"

definition ex_extractor4 :: "(string, string) extractor" where
  "ex_extractor4 =
     ex_extractor
       [(BaseModel ''Memory'' None ''likes pasta'', Some ''#memoriesu1k1''),
        (BaseModel ''RemoveDoc'' (Some ''#memoriesu1k2'') '''', Some ''#memoriesu1k2''),
        (BaseModel ''Memory'' None ''has a dog'', None)]
       [(BaseModel ''Memory'' None ''old again'', Some ''#memoriesu1k2'')]"

definition ex_run4 :: "string run" where
  "ex_run4 = ainvoke ex_extractor4 ex_uuid4 ex_uuid5 (ex_self [ex_phase]) [''memories'', ''u1'']
     [''hello''] ex_srl1 Map.empty 0"

text \<open>A run of up to two phases: the first enrichment inserts a record, which gets the
  identifier \<^verbatim>\<open>uu\<close>; the phase \<^verbatim>\<open>dedup\<close> deletes it; the phase \<^verbatim>\<open>tidy\<close> writes under
  that identifier again.\<close>

definition ex_phase2 :: memory_phase where
  "ex_phase2 = \<lparr>ph_instructions = Some ''tidy'', ph_include_messages = Some True,
                ph_enable_inserts = None, ph_enable_deletes = None\<rparr>"

definition ex_extractor5 :: "(string, string) extractor" where
  "ex_extractor5 e session messages prepared =
     (if instructions e = ''main'' then [(BaseModel ''Memory'' None ''has a dog'', None)]
      else if instructions e = ''dedup''
           then [(BaseModel ''RemoveDoc'' (Some ''uu'') '''', Some ''uu'')]
           else [(BaseModel ''Memory'' None ''has a cat'', Some ''uu'')])"

definition ex_run5 :: "memory_phase list \<Rightarrow> string run" where
  "ex_run5 ps = ainvoke ex_extractor5 ex_uuid4 ex_uuid5 (ex_self ps) [''memories'', ''u1'']
     [''hello''] [] Map.empty 0"

text \<open>The working states of \<open>ex_run4\<close>: before the first enrichment, after it, and after
  the phase.\<close>

definition ex_store_map1 :: "string store_map" where
  "ex_store_map1 = sort_results ex_uuid5 ex_srl1 5"

definition ex_w0 :: "string work" where
  "ex_w0 = (seed_store_based ex_store_map1, [], [], 0)"

definition ex_w1 :: "string work" where
  "ex_w1 = enrich_async ex_extractor4 ex_uuid4 (ex_self [ex_phase]) [''hello''] ex_store_map1 ex_w0"

definition ex_w2 :: "string work" where
  "ex_w2 = fold (phase_async ex_extractor4 ex_uuid4 (ex_self [ex_phase]) [''hello''] ex_store_map1)
             [ex_phase] ex_w1"

text \<open>An extractor that proposes nothing, and a run with it on a store that holds the
  entries found.\<close>

definition ex_silent :: "(string, string) extractor" where
  "ex_silent e session messages prepared = []"

definition ex_store :: "string store" where
  "ex_store = map_of [(([''memories'', ''u1''], ''k1''), \<lparr>v_kind = ''Memory'', v_content = ''likes sushi''\<rparr>),
                      (([''memories'', ''u1''], ''k2''), \<lparr>v_kind = ''Memory'', v_content = ''old''\<rparr>),
                      (([''memories'', ''u1''], ''k3''), \<lparr>v_kind = ''Memory'', v_content = ''keep''\<rparr>)]"

definition ex_run6 :: "string run" where
  "ex_run6 = ainvoke ex_silent ex_uuid4 ex_uuid5 (ex_self [ex_phase, ex_phase2]) [''memories'', ''u1'']
     [''hello''] ex_srl1 ex_store 0"

subsection \<open>Operations that reference a record\<close>

text \<open>
  The operations that the extractor proposes in a step are its answers under their
  identifiers, before the enricher adds the memories it passes through. The operations
  of a run are those of the first enrichment, followed by those of every phase in turn
  (each computed on the working state that the steps before it left).
\<close>

definition prepared_of :: "'c mem list \<Rightarrow> 'c prepared" where
  "prepared_of ms = map (\<lambda>m. case m of (sid, kind, content) \<Rightarrow> (sid, kind, Plain content)) ms"

definition first_results ::
  "('m, 'c) extractor \<Rightarrow> (nat \<Rightarrow> string) \<Rightarrow> 'c memory_store_enricher \<Rightarrow> 'm list
     \<Rightarrow> 'c work \<Rightarrow> 'c extracted_memory list" where
  "first_results extractor uuid4 self messages w =
     (case w of (store_based, ephemeral, removed_ids, n) \<Rightarrow>
        results_of uuid4 (Suc n)
          (extractor (memory_enricher self) (uuid4 n) messages (prepared_of store_based)))"

definition phase_results ::
  "('m, 'c) extractor \<Rightarrow> (nat \<Rightarrow> string) \<Rightarrow> 'c memory_store_enricher \<Rightarrow> 'm list
     \<Rightarrow> memory_phase \<Rightarrow> 'c work \<Rightarrow> 'c extracted_memory list" where
  "phase_results extractor uuid4 self messages phase w =
     (case w of (store_based, ephemeral, removed_ids, n) \<Rightarrow>
        results_of uuid4 (Suc n)
          (extractor (build_phase_enricher self phase) (uuid4 n)
             (if (case ph_include_messages phase of None \<Rightarrow> False | Some b \<Rightarrow> b)
              then messages else [])
             (prepared_of (store_based @ ephemeral))))"

fun later_results ::
  "('m, 'c) extractor \<Rightarrow> (nat \<Rightarrow> string) \<Rightarrow> 'c memory_store_enricher \<Rightarrow> 'm list \<Rightarrow> 'c store_map
     \<Rightarrow> memory_phase list \<Rightarrow> 'c work \<Rightarrow> 'c extracted_memory list list" where
  "later_results extractor uuid4 self messages store_map [] w = []"
| "later_results extractor uuid4 self messages store_map (phase # ps) w =
     phase_results extractor uuid4 self messages phase w #
     later_results extractor uuid4 self messages store_map ps
       (phase_async extractor uuid4 self messages store_map phase w)"

definition run_results ::
  "('m, 'c) extractor \<Rightarrow> (nat \<Rightarrow> string) \<Rightarrow> 'c memory_store_enricher \<Rightarrow> 'm list \<Rightarrow> 'c store_map
     \<Rightarrow> nat \<Rightarrow> 'c extracted_memory list list" where
  "run_results extractor uuid4 self messages store_map n =
     first_results extractor uuid4 self messages (seed_store_based store_map, [], [], n) #
     later_results extractor uuid4 self messages store_map (phases self)
       (enrich_async extractor uuid4 self messages store_map
          (seed_store_based store_map, [], [], n))"

text \<open>An operation references an identifier when it is filed under it or is a deletion
  of it. An operation of the enricher leaves the record \<open>sid\<close> of content \<open>c\<close> alone
  when it is not a deletion of \<open>sid\<close> and, if it writes under \<open>sid\<close>, is the record's
  own content passed through.\<close>

definition references :: "string \<Rightarrow> 'c extracted_memory \<Rightarrow> bool" where
  "references sid e = (fst e = sid \<or> (is_removal (snd e) \<and> json_doc_id (snd e) = Some sid))"


definition leaves_alone :: "string \<Rightarrow> 'c \<Rightarrow> 'c extracted_memory \<Rightarrow> bool" where
  "leaves_alone sid c e =
     ((fst e = sid \<longrightarrow> snd e = Plain c) \<and>
      (is_removal (snd e) \<longrightarrow> json_doc_id (snd e) \<noteq> Some sid))"

text \<open>A run in which the phase deletes the record that the first enrichment inserted,
  and the metadata of the deletion carries no \<^verbatim>\<open>json_doc_id\<close>.\<close>

definition ex_run7 :: "string run" where
  "ex_run7 = ainvoke
     (ex_extractor [(BaseModel ''Memory'' None ''has a dog'', None)]
                   [(BaseModel ''RemoveDoc'' (Some ''uu'') '''', None)])
     ex_uuid4 ex_uuid5 (ex_self [ex_phase]) [''memories'', ''u1''] [''hello''] [] Map.empty 0"

text \<open>A store that refuses every put and accepts every delete.\<close>

definition ex_refuses_puts :: "string store_op \<Rightarrow> bool" where
  "ex_refuses_puts op = (case op of Put p \<Rightarrow> True | Delete loc \<Rightarrow> False)"

text \<open>The first enrichment updates \<open>k1\<close>, deletes \<open>k2\<close> and inserts a memory; no phase follows.\<close>

definition ex_extractor8 :: "(string, string) extractor" where
  "ex_extractor8 =
     ex_extractor
       [(BaseModel ''Memory'' None ''likes pasta'', Some ''#memoriesu1k1''),
        (BaseModel ''RemoveDoc'' (Some ''#memoriesu1k2'') [], Some ''#memoriesu1k2''),
        (BaseModel ''Memory'' None ''has a dog'', None)] []"

definition ex_invoke8 :: "error + string run" where
  "ex_invoke8 = invoke_fallible ex_refuses_puts ex_extractor8 ex_uuid4 ex_uuid5 (ex_self [])
     [''memories'', ''u1''] [''hello''] ex_srl1 ex_store 0"

definition ex_ainvoke8 :: "error + string run" where
  "ex_ainvoke8 = ainvoke_fallible ex_refuses_puts ex_extractor8 ex_uuid4 ex_uuid5 (ex_self [])
     [''memories'', ''u1''] [''hello''] ex_srl1 ex_store 0"

section \<open>Proofs\<close>

subsection \<open>Dictionaries\<close>


lemma dict_pop_delete: "dict_pop d k = AList.delete k d"
  by (induction d) (auto simp: dict_pop_def)

lemma keys_dict_set: "fst ` set (dict_set d k v) = insert k (fst ` set d)"
  by (induction d) auto

lemma map_fst_dict_set:
  "map fst (dict_set d k v) = (if k \<in> fst ` set d then map fst d else map fst d @ [k])"
  by (induction d) auto

lemma keys_dict_pop: "fst ` set (dict_pop d k) = fst ` set d - {k}"
  by (auto simp: dict_pop_def)

lemma distinct_dict_set: "distinct (map fst d) \<Longrightarrow> distinct (map fst (dict_set d k v))"
  by (simp add: map_fst_dict_set)

lemma distinct_dict_pop: "distinct (map fst d) \<Longrightarrow> distinct (map fst (dict_pop d k))"
  by (simp add: dict_pop_def distinct_map_filter)


lemma map_of_dict_pop: "map_of (dict_pop d k) = (map_of d)(k := None)"
  by (simp add: dict_pop_delete delete_conv')

lemma dict_set_new: "k \<notin> fst ` set d \<Longrightarrow> dict_set d k v = d @ [(k, v)]"
  by (induction d) auto

lemma dict_set_same: "(k, v) \<in> set d \<Longrightarrow> distinct (map fst d) \<Longrightarrow> dict_set d k v = d"
  by (induction d) (auto simp: rev_image_eqI)

lemma dict_pop_absent: "k \<notin> fst ` set d \<Longrightarrow> dict_pop d k = d"
  by (induction d) (auto simp: dict_pop_def)

lemma dict_has_iff: "dict_has d k \<longleftrightarrow> k \<in> fst ` set d"
  by (simp add: dict_has_def)

lemma fold_dict_set_keys:
  "fst ` set (fold (\<lambda>x d. dict_set d (key x) (val x)) xs d0) = fst ` set d0 \<union> key ` set xs"
  by (induction xs arbitrary: d0) (auto simp: keys_dict_set)

lemma fold_dict_set_distinct:
  "distinct (map fst d0) \<Longrightarrow> distinct (map fst (fold (\<lambda>x d. dict_set d (key x) (val x)) xs d0))"
  by (induction xs arbitrary: d0) (auto simp: distinct_dict_set)

lemma fold_dict_set_append:
  "distinct (map key xs) \<Longrightarrow> key ` set xs \<inter> fst ` set d0 = {} \<Longrightarrow>
   fold (\<lambda>x d. dict_set d (key x) (val x)) xs d0 = d0 @ map (\<lambda>x. (key x, val x)) xs"
proof (induction xs arbitrary: d0)
  case Nil
  then show ?case by simp
next
  case (Cons x xs)
  have new: "key x \<notin> fst ` set d0" using Cons.prems(2) by auto
  have "key ` set xs \<inter> fst ` set (d0 @ [(key x, val x)]) = {}"
    using Cons.prems by auto
  with Cons.IH [of "d0 @ [(key x, val x)]"] Cons.prems(1) new show ?case
    by (simp add: dict_set_new)
qed

lemma keys_dict_of: "fst ` set (dict_of key val xs) = key ` set xs"
  by (simp add: dict_of_def fold_dict_set_keys)

lemma distinct_dict_of: "distinct (map fst (dict_of key val xs))"
  by (simp add: dict_of_def fold_dict_set_distinct)

lemma dict_of_distinct:
  "distinct (map key xs) \<Longrightarrow> dict_of key val xs = map (\<lambda>x. (key x, val x)) xs"
  using fold_dict_set_append [of key xs "[]" val] by (simp add: dict_of_def)


subsection \<open>Self-keyed dictionaries of working records\<close>

lemma keyed_dict_set: "keyed d \<Longrightarrow> keyed (dict_set d k (k, kind, c))"
  by (induction d) (auto simp: keyed_def)

lemma keyed_dict_pop: "keyed d \<Longrightarrow> keyed (dict_pop d k)"
  by (auto simp: keyed_def dict_pop_def)

lemma keyed_fold_dict_set:
  "keyed d0 \<Longrightarrow> keyed (fold (\<lambda>x d. dict_set d (fst x) x) xs d0)"
proof (induction xs arbitrary: d0)
  case Nil
  then show ?case by simp
next
  case (Cons x xs)
  obtain k kind c where x: "x = (k, kind, c)" by (cases x)
  show ?case using Cons.IH [OF keyed_dict_set [OF Cons.prems, of k kind c]] by (simp add: x)
qed

lemma keyed_dict_of: "keyed (dict_of fst (\<lambda>m. m) xs)"
  unfolding dict_of_def by (rule keyed_fold_dict_set) (simp add: keyed_def)

lemma keyed_values_ids: "keyed d \<Longrightarrow> map fst (dict_values d) = map fst d"
  by (induction d) (auto simp: keyed_def dict_values_def)

lemma dict_of_mems:
  "distinct (map fst ms) \<Longrightarrow> dict_values (dict_of fst (\<lambda>m. m) ms) = ms"
  by (simp add: dict_of_distinct dict_values_def comp_def)

lemma dict_get_Some_iff:
  "distinct (map fst d) \<Longrightarrow> dict_get d k = Some v \<longleftrightarrow> (k, v) \<in> set d"
  by (simp add: dict_get_def)

lemma dict_get_None_iff: "dict_get d k = None \<longleftrightarrow> k \<notin> fst ` set d"
  by (simp add: dict_get_def map_of_eq_None_iff)


subsection \<open>Invariants of the merge\<close>

lemma removal_recorded_iff:
  "removal_recorded store_map (Some d) \<longleftrightarrow> d \<noteq> [] \<and> d \<in> fst ` set store_map"
  by (simp add: removal_recorded_def dict_has_def)

lemma merge_inv_remove:
  assumes "merge_inv K R (sd, ed, rm)" and "d \<in> K \<longrightarrow> d \<in> set rm'" and "set rm' \<subseteq> insert d (set rm)"
    and "set rm \<subseteq> set rm'" and "set rm' \<subseteq> K"
  shows "merge_inv K R (dict_pop sd d, dict_pop ed d, rm')"
proof -
  have a: "distinct (map fst sd)" "distinct (map fst ed)" "keyed sd" "keyed ed"
    and b: "fst ` set sd \<subseteq> K" "fst ` set sd \<inter> (R \<union> set rm) = {}"
      "fst ` set ed \<inter> K \<subseteq> R \<union> set rm" "K - fst ` set sd \<subseteq> R \<union> set rm"
    using assms(1) by (simp_all add: merge_inv_def)
  have 1: "fst ` set sd - {d} \<subseteq> K" using b(1) by blast
  have 2: "(fst ` set sd - {d}) \<inter> (R \<union> set rm') = {}" using b(2) assms(3) by blast
  have 3: "(fst ` set ed - {d}) \<inter> K \<subseteq> R \<union> set rm'" using b(3) assms(4) by blast
  have 4: "K - (fst ` set sd - {d}) \<subseteq> R \<union> set rm'" using b(4) assms(2,4) by blast
  show ?thesis
    unfolding merge_inv_def
    by (simp add: keys_dict_pop distinct_dict_pop keyed_dict_pop a 1 2 3 4 assms(5))
qed

lemma merge_inv_upsert:
  assumes "merge_inv K R (sd, ed, rm)"
  shows "merge_inv K R (upsert i kind c (sd, ed, rm))"
proof -
  have a: "distinct (map fst sd)" "distinct (map fst ed)" "keyed sd" "keyed ed"
    and b: "fst ` set sd \<subseteq> K" "fst ` set sd \<inter> (R \<union> set rm) = {}"
      "fst ` set ed \<inter> K \<subseteq> R \<union> set rm" "K - fst ` set sd \<subseteq> R \<union> set rm" "set rm \<subseteq> K"
    using assms(1) by (simp_all add: merge_inv_def)
  show ?thesis
  proof (cases "i \<in> fst ` set sd")
    case True
    then have same: "insert i (fst ` set sd) = fst ` set sd" by blast
    have "merge_inv K R (dict_set sd i (i, kind, c), ed, rm)"
      unfolding merge_inv_def
      by (simp add: keys_dict_set distinct_dict_set keyed_dict_set a b same)
    with True show ?thesis by (simp add: upsert_def dict_has_iff)
  next
    case False
    have 3: "insert i (fst ` set ed) \<inter> K \<subseteq> R \<union> set rm" using b(3,4) False by blast
    have "merge_inv K R (sd, dict_set ed i (i, kind, c), rm)"
      unfolding merge_inv_def
      by (simp add: keys_dict_set distinct_dict_set keyed_dict_set a b 3)
    with False show ?thesis by (simp add: upsert_def dict_has_iff)
  qed
qed

lemma apply_extracted_remove_none:
  "apply_extracted store_map (i, BaseModel ''RemoveDoc'' None x) st = st"
  by (cases st) (simp add: pop_removal_def removal_recorded_def)

lemma apply_extracted_remove:
  "apply_extracted store_map (i, BaseModel ''RemoveDoc'' (Some d) x) (sd, ed, rm) =
     (dict_pop sd d, dict_pop ed d,
      if d \<noteq> [] \<and> d \<in> fst ` set store_map then rm @ [d] else rm)"
  by (simp add: pop_removal_def removal_recorded_iff)

lemma apply_extracted_model:
  "name \<noteq> ''RemoveDoc'' \<Longrightarrow>
   apply_extracted store_map (i, BaseModel name rid x) st = upsert i name x st"
  by (cases st) simp

lemma apply_extracted_plain:
  "apply_extracted store_map (i, Plain c) st = upsert i (carried_kind (fst st) i) c st"
  by (cases st) simp

lemma merge_inv_apply_extracted:
  assumes "merge_inv (fst ` set store_map) R st" and "[] \<notin> fst ` set store_map"
  shows "merge_inv (fst ` set store_map) R (apply_extracted store_map e st)"
proof -
  obtain sd ed rm where st: "st = (sd, ed, rm)" by (cases st)
  obtain i p where e: "e = (i, p)" by (cases e)
  have inv: "merge_inv (fst ` set store_map) R (sd, ed, rm)"
    using assms(1) by (simp add: st)
  have rm: "set rm \<subseteq> fst ` set store_map"
    using inv by (simp add: merge_inv_def)
  show ?thesis
  proof (cases p)
    case (BaseModel name rid dump)
    show ?thesis
    proof (cases "name = ''RemoveDoc''")
      case True
      show ?thesis
      proof (cases rid)
        case None
        show ?thesis
          unfolding e BaseModel True None apply_extracted_remove_none by (rule assms(1))
      next
        case (Some d)
        show ?thesis
        proof (cases "d \<in> fst ` set store_map")
          case in_map: True
          have ne: "d \<noteq> []" using assms(2) in_map by metis
          have "merge_inv (fst ` set store_map) R (dict_pop sd d, dict_pop ed d, rm @ [d])"
          proof (rule merge_inv_remove [OF inv])
            show "set (rm @ [d]) \<subseteq> fst ` set store_map" using in_map rm by simp
          qed auto
          then show ?thesis
            unfolding st e BaseModel True Some apply_extracted_remove using ne in_map by simp
        next
          case out: False
          have "merge_inv (fst ` set store_map) R (dict_pop sd d, dict_pop ed d, rm)"
          proof (rule merge_inv_remove [OF inv])
            show "d \<in> fst ` set store_map \<longrightarrow> d \<in> set rm" using out by simp
            show "set rm \<subseteq> fst ` set store_map" by (rule rm)
          qed auto
          then show ?thesis
            unfolding st e BaseModel True Some apply_extracted_remove using out by simp
        qed
      qed
    next
      case False
      show ?thesis
        unfolding e BaseModel st apply_extracted_model [OF False]
        by (rule merge_inv_upsert [OF inv])
    qed
  next
    case (Plain c)
    show ?thesis
      unfolding e Plain st apply_extracted_plain by (rule merge_inv_upsert [OF inv])
  qed
qed

lemma merge_inv_fold:
  assumes "[] \<notin> fst ` set store_map"
  shows "merge_inv (fst ` set store_map) R st \<Longrightarrow>
         merge_inv (fst ` set store_map) R (fold (apply_extracted store_map) es st)"
  by (induction es arbitrary: st) (simp_all add: merge_inv_apply_extracted assms)

lemma set_set_update: "set (set_update s xs) = set s \<union> set xs"
  unfolding set_update_def by (induction xs arbitrary: s) auto

lemma distinct_set_update: "distinct s \<Longrightarrow> distinct (set_update s xs)"
  unfolding set_update_def by (induction xs arbitrary: s) auto

lemma keyed_map_self: "keyed (map (\<lambda>m. (fst m, m)) ms)"
  by (simp add: keyed_def)

lemma apply_enricher_output_fold:
  assumes "distinct (map fst sb)" and "distinct (map fst eph)"
  shows "apply_enricher_output es sb store_map eph =
     (case fold (apply_extracted store_map) es
             (map (\<lambda>m. (fst m, m)) sb, map (\<lambda>m. (fst m, m)) eph, [])
      of (sd, ed, rm) \<Rightarrow> (dict_values sd, dict_values ed, rm))"
  using assms by (simp add: apply_enricher_output_def dict_of_distinct)

lemma merge_inv_start:
  assumes "work_inv K (sb, eph, removed, n)"
  shows "merge_inv K (set removed) (map (\<lambda>m. (fst m, m)) sb, map (\<lambda>m. (fst m, m)) eph, [])"
  using assms unfolding work_inv_def merge_inv_def
  by (simp add: comp_def keyed_map_self image_image)

lemma work_inv_apply:
  assumes inv: "work_inv (fst ` set store_map) (sb, eph, removed, n)"
    and ne: "[] \<notin> fst ` set store_map"
    and out: "apply_enricher_output es sb store_map eph = (sb', eph', rm)"
  shows "work_inv (fst ` set store_map) (sb', eph', set_update removed rm, n')"
proof -
  have d: "distinct (map fst sb)" "distinct (map fst eph)" "distinct removed"
    using inv by (simp_all add: work_inv_def)
  obtain sd ed rm' where f: "fold (apply_extracted store_map) es
      (map (\<lambda>m. (fst m, m)) sb, map (\<lambda>m. (fst m, m)) eph, []) = (sd, ed, rm')"
    by (cases "fold (apply_extracted store_map) es
      (map (\<lambda>m. (fst m, m)) sb, map (\<lambda>m. (fst m, m)) eph, [])")
  have eqs: "sb' = dict_values sd" "eph' = dict_values ed" "rm = rm'"
    using out by (simp_all add: apply_enricher_output_fold [OF d(1,2)] f)
  have m: "merge_inv (fst ` set store_map) (set removed) (sd, ed, rm')"
    using merge_inv_fold [OF ne merge_inv_start [OF inv], of es] by (simp add: f)
  then have a: "distinct (map fst sd)" "distinct (map fst ed)" "keyed sd" "keyed ed"
    and b: "fst ` set sd \<subseteq> fst ` set store_map" "fst ` set sd \<inter> (set removed \<union> set rm') = {}"
      "fst ` set ed \<inter> fst ` set store_map \<subseteq> set removed \<union> set rm'"
      "fst ` set store_map - fst ` set sd \<subseteq> set removed \<union> set rm'"
      "set rm' \<subseteq> fst ` set store_map"
    by (simp_all add: merge_inv_def)
  have ids: "map fst (dict_values sd) = map fst sd" "map fst (dict_values ed) = map fst ed"
    using a by (simp_all add: keyed_values_ids)
  have ids': "fst ` set (dict_values sd) = fst ` set sd" "fst ` set (dict_values ed) = fst ` set ed"
    using ids by (metis list.set_map)+
  have r: "set removed \<subseteq> fst ` set store_map" using inv by (simp add: work_inv_def)
  show ?thesis
    unfolding work_inv_def eqs
    using a b r d(3)
    by (simp add: ids ids' set_set_update distinct_set_update)
qed

subsection \<open>Invariants of a run\<close>

lemma work_inv_enricher_output:
  assumes "work_inv (fst ` set store_map) (sb, eph, removed, n)"
    and "[] \<notin> fst ` set store_map"
  shows "work_inv (fst ` set store_map)
           (case apply_enricher_output es sb store_map eph of
              (sb', eph', rm) \<Rightarrow> (sb', eph', set_update removed rm, n'))"
proof -
  obtain sb' eph' rm where out: "apply_enricher_output es sb store_map eph = (sb', eph', rm)"
    by (cases "apply_enricher_output es sb store_map eph")
  show ?thesis using work_inv_apply [OF assms out] by (simp add: out)
qed

lemma work_inv_enrich_async:
  assumes "work_inv (fst ` set store_map) w" and "[] \<notin> fst ` set store_map"
  shows "work_inv (fst ` set store_map) (enrich_async extractor uuid4 self messages store_map w)"
proof -
  obtain sb eph removed n where w: "w = (sb, eph, removed, n)" by (cases w)
  show ?thesis
    using assms work_inv_enricher_output [of store_map sb eph removed n]
    by (simp add: w enrich_async_def split: prod.split)
qed

lemma work_inv_phase_async:
  assumes "work_inv (fst ` set store_map) w" and "[] \<notin> fst ` set store_map"
  shows "work_inv (fst ` set store_map) (phase_async extractor uuid4 self messages store_map phase w)"
proof -
  obtain sb eph removed n where w: "w = (sb, eph, removed, n)" by (cases w)
  show ?thesis
    using assms work_inv_enricher_output [of store_map sb eph removed n]
    by (simp add: w phase_async_def Let_def split: prod.split)
qed

lemma work_inv_phases:
  assumes "[] \<notin> fst ` set store_map"
  shows "work_inv (fst ` set store_map) w \<Longrightarrow>
    work_inv (fst ` set store_map) (fold (phase_async extractor uuid4 self messages store_map) ps w)"
  by (induction ps arbitrary: w) (simp_all add: work_inv_phase_async assms)

lemma ids_seed_store_based: "map fst (seed_store_based store_map) = map fst store_map"
  by (simp add: seed_store_based_def comp_def case_prod_unfold)

lemma work_inv_seed:
  assumes "distinct (map fst store_map)"
  shows "work_inv (fst ` set store_map) (seed_store_based store_map, [], [], n)"
proof -
  have "fst ` set (seed_store_based store_map) = fst ` set store_map"
    using ids_seed_store_based [of store_map] by (metis list.set_map)
  then show ?thesis using assms by (simp add: work_inv_def ids_seed_store_based)
qed

lemma distinct_sort_results: "distinct (map fst (sort_results uuid5 srl limit))"
  by (simp add: sort_results_def distinct_dict_of)

lemma keys_sort_results_nonempty:
  assumes "\<forall>t. uuid5 t \<noteq> []"
  shows "[] \<notin> fst ` set (sort_results uuid5 srl limit)"
  using assms by (auto simp: sort_results_def keys_dict_of stable_id_def dest: sym)

lemma work_inv_run:
  assumes "\<forall>t. uuid5 t \<noteq> []"
  shows "work_inv (fst ` set (sort_results uuid5 srl limit))
     (fold (phase_async extractor uuid4 self messages (sort_results uuid5 srl limit)) ps
        (enrich_async extractor uuid4 self messages (sort_results uuid5 srl limit)
           (seed_store_based (sort_results uuid5 srl limit), [], [], n)))"
  by (intro work_inv_phases work_inv_enrich_async work_inv_seed distinct_sort_results
      keys_sort_results_nonempty assms)

subsection \<open>The plan\<close>

lemma map_filter_append: "List.map_filter f (xs @ ys) = List.map_filter f xs @ List.map_filter f ys"
  by (simp add: List.map_filter_def)

lemma map_filter_cong_set:
  "(\<And>x. x \<in> set xs \<Longrightarrow> f x = g x) \<Longrightarrow> List.map_filter f xs = List.map_filter g xs"
  by (induction xs) (simp_all add: List.map_filter_def)

lemma final_put_store_based:
  assumes "fst m \<notin> set removed" and "fst m \<in> fst ` set store_map"
  shows "final_put namespace store_map removed m = spec_changed_put store_map m"
proof -
  obtain sid kind content where m: "m = (sid, kind, content)" by (cases m)
  from assms(2) obtain art where "dict_get store_map sid = Some art"
    by (cases "dict_get store_map sid") (auto simp: m dict_get_None_iff)
  with assms(1) show ?thesis
    by (auto simp: m final_put_def spec_changed_put_def put_at_def)
qed

lemma final_puts_ephemeral:
  assumes "fst ` set eph \<inter> fst ` set store_map \<subseteq> set removed"
  shows "List.map_filter (final_put namespace store_map removed) eph =
     map (\<lambda>m. case m of (sid, kind, content) \<Rightarrow> put_at namespace sid kind content)
       (filter (\<lambda>m. fst m \<notin> set removed) eph)"
  using assms
proof (induction eph)
  case Nil
  then show ?case by (simp add: List.map_filter_def)
next
  case (Cons m eph)
  obtain sid kind content where m: "m = (sid, kind, content)" by (cases m)
  have ih: "List.map_filter (final_put namespace store_map removed) eph =
     map (\<lambda>m. case m of (sid, kind, content) \<Rightarrow> put_at namespace sid kind content)
       (filter (\<lambda>m. fst m \<notin> set removed) eph)"
    using Cons by auto
  show ?case
  proof (cases "sid \<in> set removed")
    case True
    then have "final_put namespace store_map removed m = None"
      by (simp add: m final_put_def)
    with True show ?thesis using ih by (simp add: m)
  next
    case False
    with Cons.prems have "sid \<notin> fst ` set store_map" by (auto simp: m)
    then have "dict_get store_map sid = None" by (simp add: dict_get_None_iff)
    with False have "final_put namespace store_map removed m =
        Some (put_at namespace sid kind content)"
      by (simp add: m final_put_def put_at_def)
    with False show ?thesis using ih by (simp add: m)
  qed
qed

lemma spec_deletes_final:
  "final_deletes store_map removed = spec_deletes store_map removed"
  by (induction removed)
     (simp_all add: final_deletes_def spec_deletes_def split: option.split)

lemma length_spec_deletes:
  "set removed \<subseteq> fst ` set store_map \<Longrightarrow> length (spec_deletes store_map removed) = length removed"
proof (induction removed)
  case Nil
  then show ?case by (simp add: spec_deletes_def)
next
  case (Cons sid removed)
  then have "dict_get store_map sid \<noteq> None" by (simp add: dict_get_None_iff)
  with Cons show ?case by (auto simp: spec_deletes_def)
qed

lemma final_puts_spec:
  assumes "work_inv (fst ` set store_map) (sb, eph, removed, n)"
  shows "final_puts namespace store_map removed (sb @ eph) =
         spec_puts namespace store_map removed sb eph"
proof -
  have sb: "fst ` set sb \<subseteq> fst ` set store_map" "fst ` set sb \<inter> set removed = {}"
    and eph: "fst ` set eph \<inter> fst ` set store_map \<subseteq> set removed"
    using assms by (simp_all add: work_inv_def)
  have keep: "filter (\<lambda>m. fst m \<notin> set removed) sb = sb"
    using sb(2) by (auto simp: filter_id_conv)
  have "List.map_filter (final_put namespace store_map removed) sb =
        List.map_filter (spec_changed_put store_map) sb"
    using sb by (intro map_filter_cong_set final_put_store_based) auto
  then show ?thesis
    by (simp add: final_puts_def spec_puts_def map_filter_append keep
        final_puts_ephemeral [OF eph])
qed

lemma ainvoke_unfold:
  "ainvoke extractor uuid4 uuid5 self namespace messages srl store n =
     (case fold (phase_async extractor uuid4 self messages (sort_results uuid5 srl (query_limit self)))
             (phases self)
             (enrich_async extractor uuid4 self messages (sort_results uuid5 srl (query_limit self))
                (seed_store_based (sort_results uuid5 srl (query_limit self)), [], [], n))
      of (sb, eph, removed, n') \<Rightarrow>
        \<lparr>returned = final_puts namespace (sort_results uuid5 srl (query_limit self)) removed (sb @ eph),
         issued = map Put (final_puts namespace (sort_results uuid5 srl (query_limit self)) removed (sb @ eph))
                  @ map Delete (final_deletes (sort_results uuid5 srl (query_limit self)) removed),
         store_after = fold store_apply
            (map Put (final_puts namespace (sort_results uuid5 srl (query_limit self)) removed (sb @ eph))
             @ map Delete (final_deletes (sort_results uuid5 srl (query_limit self)) removed)) store,
         last_store_based = sb, last_ephemeral = eph, last_removed_ids = removed, draws = n'\<rparr>)"
  by (simp add: ainvoke_def Let_def split: prod.split)

subsection \<open>Search aggregation\<close>

















lemma stable_id_dedup: "stable_id uuid5 i = uuid5 (fst (dedup_key i) @ [snd (dedup_key i)])"
  by (simp add: stable_id_def dedup_key_def)





subsection \<open>Single operations\<close>

lemma keyed_upsert:
  "keyed sd \<Longrightarrow> keyed ed \<Longrightarrow> upsert i kind c (sd, ed, rm) = (sd', ed', rm') \<Longrightarrow> keyed sd' \<and> keyed ed'"
  by (auto simp: upsert_def keyed_dict_set split: if_splits)

lemma keyed_apply_extracted:
  assumes "keyed sd" and "keyed ed" and "apply_extracted store_map e (sd, ed, rm) = (sd', ed', rm')"
  shows "keyed sd' \<and> keyed ed'"
proof -
  obtain i p where e: "e = (i, p)" by (cases e)
  show ?thesis
  proof (cases p)
    case (BaseModel name rid dump)
    show ?thesis
    proof (cases "name = ''RemoveDoc''")
      case True
      with assms show ?thesis
        by (cases rid) (auto simp: e BaseModel pop_removal_def keyed_dict_pop)
    next
      case False
      with assms show ?thesis
        using keyed_upsert [of sd ed i name dump rm sd' ed' rm'] by (simp add: e BaseModel)
    qed
  next
    case (Plain c)
    with assms show ?thesis
      using keyed_upsert [of sd ed i "carried_kind sd i" c rm sd' ed' rm'] by (simp add: e)
  qed
qed

lemma keyed_fold_apply:
  assumes "keyed sd" and "keyed ed"
    and "fold (apply_extracted store_map) es (sd, ed, rm) = (sd', ed', rm')"
  shows "keyed sd' \<and> keyed ed'"
  using assms
proof (induction es arbitrary: sd ed rm)
  case Nil
  then show ?case by simp
next
  case (Cons e es)
  obtain sd1 ed1 rm1 where s: "apply_extracted store_map e (sd, ed, rm) = (sd1, ed1, rm1)"
    by (metis prod_cases3)
  from keyed_apply_extracted [OF Cons.prems(1,2) s] Cons.IH [of sd1 ed1 rm1] Cons.prems(3)
  show ?case by (simp add: s)
qed

text \<open>The state of the loop after the operations \<open>es\<close>.\<close>

lemma apply_enricher_output_state:
  obtains sd ed rm where
    "fold (apply_extracted store_map) es
       (dict_of fst (\<lambda>m. m) sb, dict_of fst (\<lambda>m. m) eph, []) = (sd, ed, rm)"
    and "apply_enricher_output es sb store_map eph = (dict_values sd, dict_values ed, rm)"
    and "keyed sd" and "keyed ed"
proof -
  obtain sd ed rm where f: "fold (apply_extracted store_map) es
       (dict_of fst (\<lambda>m. m) sb, dict_of fst (\<lambda>m. m) eph, []) = (sd, ed, rm)"
    by (metis prod_cases3)
  have "keyed sd \<and> keyed ed"
    by (rule keyed_fold_apply [OF keyed_dict_of keyed_dict_of f])
  moreover have "apply_enricher_output es sb store_map eph = (dict_values sd, dict_values ed, rm)"
    by (simp add: apply_enricher_output_def f)
  ultimately show ?thesis using f that by blast
qed

lemma ids_values: "keyed d \<Longrightarrow> fst ` set (dict_values d) = fst ` set d"
  using keyed_values_ids [of d] by (metis list.set_map)

lemma upsert_new:
  assumes "i \<notin> fst ` set sd" and "i \<notin> fst ` set ed"
  shows "upsert i kind c (sd, ed, rm) = (sd, ed @ [(i, i, kind, c)], rm)"
  using assms by (simp add: upsert_def dict_has_iff dict_set_new)

lemma carried_kind_absent: "i \<notin> fst ` set sd \<Longrightarrow> carried_kind sd i = ''Memory''"
  by (simp add: carried_kind_def dict_get_def map_of_eq_None_iff [THEN iffD2])

lemma apply_extracted_new:
  assumes "\<not> is_removal p" and "i \<notin> fst ` set sd" and "i \<notin> fst ` set ed"
  shows "apply_extracted store_map (i, p) (sd, ed, rm) =
           (sd, ed @ [(i, i, written_kind p, written_content p)], rm)"
proof (cases p)
  case (BaseModel name rid dump)
  with assms show ?thesis
    by (simp add: is_removal_def written_kind_def written_content_def upsert_new)
next
  case (Plain c)
  with assms show ?thesis
    by (simp add: written_kind_def written_content_def upsert_new carried_kind_absent)
qed

subsection \<open>Deletions\<close>

lemma upsert_keys:
  assumes "upsert i kind c (sd, ed, rm) = (sd', ed', rm')"
  shows "fst ` set sd' = fst ` set sd" and "fst ` set ed' \<subseteq> insert i (fst ` set ed)"
    and "rm' = rm"
proof -
  have "fst ` set sd' = fst ` set sd \<and> fst ` set ed' \<subseteq> insert i (fst ` set ed) \<and> rm' = rm"
  proof (cases "i \<in> fst ` set sd")
    case True
    then have "insert i (fst ` set sd) = fst ` set sd" by blast
    moreover have "sd' = dict_set sd i (i, kind, c)" "ed' = ed" "rm' = rm"
      using assms True by (simp_all add: upsert_def dict_has_iff)
    ultimately show ?thesis by (simp add: keys_dict_set subset_insertI)
  next
    case False
    then have "sd' = sd" "ed' = dict_set ed i (i, kind, c)" "rm' = rm"
      using assms by (simp_all add: upsert_def dict_has_iff)
    then show ?thesis by (simp add: keys_dict_set)
  qed
  then show "fst ` set sd' = fst ` set sd" and "fst ` set ed' \<subseteq> insert i (fst ` set ed)"
    and "rm' = rm" by simp_all
qed

lemma write_keys:
  assumes "apply_extracted store_map (i, p) (sd, ed, rm) = (sd', ed', rm')" and "\<not> is_removal p"
  shows "fst ` set sd' = fst ` set sd" and "fst ` set ed' \<subseteq> insert i (fst ` set ed)"
    and "rm' = rm"
proof -
  obtain kind c where "upsert i kind c (sd, ed, rm) = (sd', ed', rm')"
    using assms by (cases p) (simp_all add: is_removal_def)
  from upsert_keys [OF this]
  show "fst ` set sd' = fst ` set sd" and "fst ` set ed' \<subseteq> insert i (fst ` set ed)"
    and "rm' = rm" by simp_all
qed

lemma removal_keys:
  assumes "apply_extracted store_map (i, p) (sd, ed, rm) = (sd', ed', rm')" and "is_removal p"
  shows "fst ` set sd' \<subseteq> fst ` set sd" and "fst ` set ed' \<subseteq> fst ` set ed"
    and "set rm \<subseteq> set rm'"
proof -
  obtain rid dump where p: "p = BaseModel ''RemoveDoc'' rid dump"
    using assms(2) by (cases p) (simp_all add: is_removal_def)
  have "fst ` set sd' \<subseteq> fst ` set sd \<and> fst ` set ed' \<subseteq> fst ` set ed \<and> set rm \<subseteq> set rm'"
  proof (cases rid)
    case None
    then show ?thesis using assms(1) by (auto simp: p pop_removal_def removal_recorded_def)
  next
    case (Some d)
    then have "sd' = dict_pop sd d" "ed' = dict_pop ed d" "set rm \<subseteq> set rm'"
      using assms(1) by (auto simp: p pop_removal_def split: if_splits)
    then show ?thesis by (simp add: keys_dict_pop)
  qed
  then show "fst ` set sd' \<subseteq> fst ` set sd" and "fst ` set ed' \<subseteq> fst ` set ed"
    and "set rm \<subseteq> set rm'" by simp_all
qed

lemma remove_absent:
  assumes "apply_extracted store_map (x, BaseModel ''RemoveDoc'' (Some d) c) (sd, ed, rm) = (sd', ed', rm')"
  shows "d \<notin> fst ` set sd'" and "d \<notin> fst ` set ed'"
proof -
  have "sd' = dict_pop sd d" "ed' = dict_pop ed d"
    using assms by (auto simp: pop_removal_def)
  then show "d \<notin> fst ` set sd'" and "d \<notin> fst ` set ed'" by (simp_all add: keys_dict_pop)
qed

lemma store_keys_step:
  assumes "apply_extracted store_map e (sd, ed, rm) = (sd', ed', rm')"
  shows "fst ` set sd' \<subseteq> fst ` set sd"
proof -
  obtain i p where e: "e = (i, p)" by (cases e)
  show ?thesis
    using write_keys(1) [of store_map i p sd ed rm sd' ed' rm']
      removal_keys(1) [of store_map i p sd ed rm sd' ed' rm'] assms
    by (cases "is_removal p") (simp_all add: e)
qed

lemma store_keys_fold:
  assumes "fold (apply_extracted store_map) es (sd, ed, rm) = (sd', ed', rm')"
  shows "fst ` set sd' \<subseteq> fst ` set sd"
  using assms
proof (induction es arbitrary: sd ed rm)
  case Nil
  then show ?case by simp
next
  case (Cons e es)
  obtain sd1 ed1 rm1 where s: "apply_extracted store_map e (sd, ed, rm) = (sd1, ed1, rm1)"
    by (metis prod_cases3)
  have "fst ` set sd' \<subseteq> fst ` set sd1" using Cons.IH [of sd1 ed1 rm1] Cons.prems by (simp add: s)
  with store_keys_step [OF s] show ?case by blast
qed

lemma absent_step:
  assumes "apply_extracted store_map (i, p) (sd, ed, rm) = (sd', ed', rm')"
    and "d \<notin> fst ` set sd" and "d \<notin> fst ` set ed" and "i = d \<longrightarrow> is_removal p"
  shows "d \<notin> fst ` set sd' \<and> d \<notin> fst ` set ed'"
proof (cases "is_removal p")
  case True
  from removal_keys(1,2) [OF assms(1) True] assms(2,3) show ?thesis by blast
next
  case False
  then have "i \<noteq> d" using assms(4) by blast
  with write_keys(1,2) [OF assms(1) False] assms(2,3) show ?thesis by blast
qed

lemma absent_fold:
  assumes "fold (apply_extracted store_map) es (sd, ed, rm) = (sd', ed', rm')"
    and "d \<notin> fst ` set sd" and "d \<notin> fst ` set ed"
    and "\<forall>e \<in> set es. fst e = d \<longrightarrow> is_removal (snd e)"
  shows "d \<notin> fst ` set sd' \<and> d \<notin> fst ` set ed'"
  using assms
proof (induction es arbitrary: sd ed rm)
  case Nil
  then show ?case by simp
next
  case (Cons e es)
  obtain i p where e: "e = (i, p)" by (cases e)
  obtain sd1 ed1 rm1 where s: "apply_extracted store_map (i, p) (sd, ed, rm) = (sd1, ed1, rm1)"
    by (metis prod_cases3)
  have "i = d \<longrightarrow> is_removal p" using Cons.prems(4) by (simp add: e)
  from absent_step [OF s Cons.prems(2,3) this]
  have a: "d \<notin> fst ` set sd1" "d \<notin> fst ` set ed1" by simp_all
  have "fold (apply_extracted store_map) es (sd1, ed1, rm1) = (sd', ed', rm')"
    using Cons.prems(1) by (simp add: e s)
  from Cons.IH [OF this a] Cons.prems(4) show ?case by simp
qed

lemma removed_grows_step:
  assumes "apply_extracted store_map e (sd, ed, rm) = (sd', ed', rm')"
  shows "set rm \<subseteq> set rm'"
proof -
  obtain i p where e: "e = (i, p)" by (cases e)
  show ?thesis
    using write_keys(3) [of store_map i p sd ed rm sd' ed' rm']
      removal_keys(3) [of store_map i p sd ed rm sd' ed' rm'] assms
    by (cases "is_removal p") (simp_all add: e)
qed

lemma removed_grows_fold:
  assumes "fold (apply_extracted store_map) es (sd, ed, rm) = (sd', ed', rm')"
  shows "set rm \<subseteq> set rm'"
  using assms
proof (induction es arbitrary: sd ed rm)
  case Nil
  then show ?case by simp
next
  case (Cons e es)
  obtain sd1 ed1 rm1 where s: "apply_extracted store_map e (sd, ed, rm) = (sd1, ed1, rm1)"
    by (metis prod_cases3)
  have "set rm1 \<subseteq> set rm'" using Cons.IH [of sd1 ed1 rm1] Cons.prems by (simp add: s)
  with removed_grows_step [OF s] show ?case by blast
qed

lemma fold_split:
  assumes "fold f (pre @ e # post) s = s'"
  obtains s1 where "fold f pre s = s1" and "fold f post (f e s1) = s'"
  using assms by simp

lemma removal_recorded_fold:
  assumes "fold (apply_extracted store_map) es (sd, ed, rm) = (sd', ed', rm')"
    and "(x, BaseModel ''RemoveDoc'' (Some d) c) \<in> set es"
    and "d \<noteq> []" and "d \<in> fst ` set store_map"
  shows "d \<in> set rm'"
proof -
  from assms(2) obtain pre post where es: "es = pre @ (x, BaseModel ''RemoveDoc'' (Some d) c) # post"
    by (meson split_list)
  obtain sd1 ed1 rm1 where s1: "fold (apply_extracted store_map) pre (sd, ed, rm) = (sd1, ed1, rm1)"
    by (metis prod_cases3)
  have "fold (apply_extracted store_map) post
          (dict_pop sd1 d, dict_pop ed1 d, rm1 @ [d]) = (sd', ed', rm')"
    using assms(1,3,4) by (simp add: es s1 pop_removal_def removal_recorded_iff)
  from removed_grows_fold [OF this] show ?thesis by auto
qed

lemma final_put_removed:
  "d \<in> set removed \<Longrightarrow> final_put namespace store_map removed (d, kind, content) = None"
  by (simp add: final_put_def)

lemma deleted_not_store_based:
  assumes "apply_enricher_output es sb store_map eph = (sb', eph', rm)"
    and "(x, BaseModel ''RemoveDoc'' (Some d) c) \<in> set es"
  shows "d \<notin> fst ` set sb'"
proof -
  from assms(2) obtain pre post where es: "es = pre @ (x, BaseModel ''RemoveDoc'' (Some d) c) # post"
    by (meson split_list)
  obtain sd ed rm0 where f: "fold (apply_extracted store_map) es
       (dict_of fst (\<lambda>m. m) sb, dict_of fst (\<lambda>m. m) eph, []) = (sd, ed, rm0)"
    and o: "apply_enricher_output es sb store_map eph = (dict_values sd, dict_values ed, rm0)"
    and k: "keyed sd" "keyed ed"
    by (rule apply_enricher_output_state)
  obtain sd1 ed1 rm1 where s1: "fold (apply_extracted store_map) pre
       (dict_of fst (\<lambda>m. m) sb, dict_of fst (\<lambda>m. m) eph, []) = (sd1, ed1, rm1)"
    by (metis prod_cases3)
  obtain sd2 ed2 rm2 where s2: "apply_extracted store_map (x, BaseModel ''RemoveDoc'' (Some d) c)
       (sd1, ed1, rm1) = (sd2, ed2, rm2)"
    by (metis prod_cases3)
  have s3: "fold (apply_extracted store_map) post (sd2, ed2, rm2) = (sd, ed, rm0)"
    using f by (simp add: es s1 s2 del: apply_extracted.simps)
  have "d \<notin> fst ` set sd2" by (rule remove_absent(1) [OF s2])
  with store_keys_fold [OF s3] have "d \<notin> fst ` set sd" by blast
  moreover have "sb' = dict_values sd" "eph' = dict_values ed" using assms(1) o by simp_all
  ultimately show ?thesis using k by (simp add: ids_values)
qed

lemma deleted_last_absent:
  assumes "apply_enricher_output (pre @ (x, BaseModel ''RemoveDoc'' (Some d) c) # post) sb store_map eph
             = (sb', eph', rm)"
    and "\<forall>e \<in> set post. fst e = d \<longrightarrow> is_removal (snd e)"
  shows "d \<notin> fst ` set sb' \<and> d \<notin> fst ` set eph'"
proof -
  let ?es = "pre @ (x, BaseModel ''RemoveDoc'' (Some d) c) # post"
  obtain sd ed rm0 where f: "fold (apply_extracted store_map) ?es
       (dict_of fst (\<lambda>m. m) sb, dict_of fst (\<lambda>m. m) eph, []) = (sd, ed, rm0)"
    and o: "apply_enricher_output ?es sb store_map eph = (dict_values sd, dict_values ed, rm0)"
    and k: "keyed sd" "keyed ed"
    by (rule apply_enricher_output_state)
  obtain sd1 ed1 rm1 where s1: "fold (apply_extracted store_map) pre
       (dict_of fst (\<lambda>m. m) sb, dict_of fst (\<lambda>m. m) eph, []) = (sd1, ed1, rm1)"
    by (metis prod_cases3)
  obtain sd2 ed2 rm2 where s2: "apply_extracted store_map (x, BaseModel ''RemoveDoc'' (Some d) c)
       (sd1, ed1, rm1) = (sd2, ed2, rm2)"
    by (metis prod_cases3)
  have s3: "fold (apply_extracted store_map) post (sd2, ed2, rm2) = (sd, ed, rm0)"
    using f by (simp add: s1 s2 del: apply_extracted.simps)
  have "d \<notin> fst ` set sd \<and> d \<notin> fst ` set ed"
    by (rule absent_fold [OF s3 remove_absent [OF s2] assms(2)])
  moreover have "sb' = dict_values sd" "eph' = dict_values ed" using assms(1) o by simp_all
  ultimately show ?thesis using k by (simp add: ids_values)
qed

lemma deleted_recorded:
  assumes "apply_enricher_output es sb store_map eph = (sb', eph', rm)"
    and "(x, BaseModel ''RemoveDoc'' (Some d) c) \<in> set es"
    and "d \<noteq> []" and "d \<in> fst ` set store_map"
  shows "d \<in> set rm"
proof -
  obtain sd ed rm0 where f: "fold (apply_extracted store_map) es
       (dict_of fst (\<lambda>m. m) sb, dict_of fst (\<lambda>m. m) eph, []) = (sd, ed, rm0)"
    and o: "apply_enricher_output es sb store_map eph = (dict_values sd, dict_values ed, rm0)"
    by (rule apply_enricher_output_state)
  from removal_recorded_fold [OF f assms(2,3,4)] assms(1) o show ?thesis by simp
qed

subsection \<open>Steps of a run\<close>

lemma enrich_async_apply:
  "enrich_async extractor uuid4 self messages store_map w =
     (case apply_enricher_output (first_enriched extractor uuid4 self messages w)
             (store_based_of w) store_map (ephemeral_of w)
      of (sb', eph', rm) \<Rightarrow>
        (sb', eph', set_update (removed_of w) rm,
         snd (MemoryEnricher_ainvoke extractor uuid4 (memory_enricher self) messages
                (Some (existing_of (store_based_of w))) (snd (snd (snd w))))))"
  by (cases w)
     (simp add: enrich_async_def first_enriched_def store_based_of_def ephemeral_of_def
        removed_of_def split: prod.split)

lemma phase_async_apply:
  "phase_async extractor uuid4 self messages store_map phase w =
     (case apply_enricher_output (phase_enriched extractor uuid4 self messages phase w)
             (store_based_of w) store_map (ephemeral_of w)
      of (sb', eph', rm) \<Rightarrow>
        (sb', eph', set_update (removed_of w) rm,
         snd (MemoryEnricher_ainvoke extractor uuid4 (build_phase_enricher self phase)
                (if (case ph_include_messages phase of None \<Rightarrow> False | Some b \<Rightarrow> b)
                 then messages else [])
                (Some (existing_of (context_of w))) (snd (snd (snd w))))))"
  by (cases w)
     (simp add: phase_async_def phase_enriched_def store_based_of_def ephemeral_of_def
        removed_of_def context_of_def Let_def split: prod.split)

lemma absorbs_enrich_async:
  "absorbs store_map (first_enriched extractor uuid4 self messages w) w
     (enrich_async extractor uuid4 self messages store_map w)"
  unfolding absorbs_def enrich_async_apply
  by (cases "apply_enricher_output (first_enriched extractor uuid4 self messages w)
             (store_based_of w) store_map (ephemeral_of w)")
     (simp add: store_based_of_def ephemeral_of_def removed_of_def)

lemma absorbs_phase_async:
  "absorbs store_map (phase_enriched extractor uuid4 self messages phase w) w
     (phase_async extractor uuid4 self messages store_map phase w)"
  unfolding absorbs_def phase_async_apply
  by (cases "apply_enricher_output (phase_enriched extractor uuid4 self messages phase w)
             (store_based_of w) store_map (ephemeral_of w)")
     (simp add: store_based_of_def ephemeral_of_def removed_of_def)

lemma store_based_shrinks:
  assumes "apply_enricher_output es sb store_map eph = (sb', eph', rm)"
  shows "fst ` set sb' \<subseteq> fst ` set sb"
proof -
  obtain sd ed rm0 where f: "fold (apply_extracted store_map) es
       (dict_of fst (\<lambda>m. m) sb, dict_of fst (\<lambda>m. m) eph, []) = (sd, ed, rm0)"
    and o: "apply_enricher_output es sb store_map eph = (dict_values sd, dict_values ed, rm0)"
    and k: "keyed sd" "keyed ed"
    by (rule apply_enricher_output_state)
  have "sb' = dict_values sd" using assms o by simp
  with store_keys_fold [OF f] k show ?thesis by (simp add: ids_values keys_dict_of)
qed

lemma absorbs_store_based: "absorbs store_map es w w' \<Longrightarrow> fst ` set (store_based_of w') \<subseteq> fst ` set (store_based_of w)"
  unfolding absorbs_def using store_based_shrinks by blast

lemma absorbs_removed: "absorbs store_map es w w' \<Longrightarrow> set (removed_of w) \<subseteq> set (removed_of w')"
  unfolding absorbs_def by (auto simp: set_set_update)

lemma phases_store_based:
  "fst ` set (store_based_of (fold (phase_async extractor uuid4 self messages store_map) ps w))
     \<subseteq> fst ` set (store_based_of w)"
proof (induction ps arbitrary: w)
  case Nil
  then show ?case by simp
next
  case (Cons ph ps)
  from Cons.IH [of "phase_async extractor uuid4 self messages store_map ph w"]
    absorbs_store_based [OF absorbs_phase_async [of store_map extractor uuid4 self messages ph w]]
  show ?case by (simp; blast)
qed

lemma phases_removed:
  "set (removed_of w)
     \<subseteq> set (removed_of (fold (phase_async extractor uuid4 self messages store_map) ps w))"
proof (induction ps arbitrary: w)
  case Nil
  then show ?case by simp
next
  case (Cons ph ps)
  from Cons.IH [of "phase_async extractor uuid4 self messages store_map ph w"]
    absorbs_removed [OF absorbs_phase_async [of store_map extractor uuid4 self messages ph w]]
  show ?case by (simp; blast)
qed

lemma absent_output:
  assumes "apply_enricher_output es sb store_map eph = (sb', eph', rm)"
    and "d \<notin> fst ` set sb" and "d \<notin> fst ` set eph"
    and "\<forall>e \<in> set es. fst e = d \<longrightarrow> is_removal (snd e)"
  shows "d \<notin> fst ` set sb' \<and> d \<notin> fst ` set eph'"
proof -
  obtain sd ed rm0 where f: "fold (apply_extracted store_map) es
       (dict_of fst (\<lambda>m. m) sb, dict_of fst (\<lambda>m. m) eph, []) = (sd, ed, rm0)"
    and o: "apply_enricher_output es sb store_map eph = (dict_values sd, dict_values ed, rm0)"
    and k: "keyed sd" "keyed ed"
    by (rule apply_enricher_output_state)
  have "d \<notin> fst ` set (dict_of fst (\<lambda>m. m) sb)" "d \<notin> fst ` set (dict_of fst (\<lambda>m. m) eph)"
    using assms(2,3) by (simp_all add: keys_dict_of)
  from absent_fold [OF f this assms(4)]
  have "d \<notin> fst ` set sd \<and> d \<notin> fst ` set ed" .
  moreover have "sb' = dict_values sd" "eph' = dict_values ed" using assms(1) o by simp_all
  ultimately show ?thesis using k by (simp add: ids_values)
qed

lemma prepare_existing_of:
  "prepare_existing e uuid4 (Some (existing_of ms)) n = (prepared_of ms, n)"
  by (simp add: existing_of_def prepared_of_def comp_def case_prod_unfold)

lemma final_puts_without:
  assumes "d \<in> set removed"
  shows "final_puts namespace store_map removed ms =
         final_puts namespace store_map removed (filter (\<lambda>m. fst m \<noteq> d) ms)"
proof (induction ms)
  case Nil
  then show ?case by simp
next
  case (Cons m ms)
  obtain sid kind content where m: "m = (sid, kind, content)" by (cases m)
  show ?case
  proof (cases "sid = d")
    case True
    then have "final_put namespace store_map removed m = None"
      using assms by (simp add: m final_put_removed)
    with True Cons show ?thesis by (simp add: final_puts_def m)
  next
    case False
    with Cons show ?thesis
      by (simp add: final_puts_def m split: option.split)
  qed
qed

lemma absorbs_deleted:
  assumes "absorbs store_map es w w'" and "(x, BaseModel ''RemoveDoc'' (Some d) c) \<in> set es"
  shows "d \<notin> fst ` set (store_based_of w')"
    and "\<And>pre post. es = pre @ (x, BaseModel ''RemoveDoc'' (Some d) c) # post \<Longrightarrow>
           \<forall>e \<in> set post. fst e = d \<longrightarrow> is_removal (snd e) \<Longrightarrow>
           d \<notin> fst ` set (context_of w')"
    and "d \<noteq> [] \<Longrightarrow> d \<in> fst ` set store_map \<Longrightarrow> d \<in> set (removed_of w')"
proof -
  from assms(1) obtain sb' eph' rm where
    o: "apply_enricher_output es (store_based_of w) store_map (ephemeral_of w) = (sb', eph', rm)"
    and w': "store_based_of w' = sb'" "ephemeral_of w' = eph'"
      "removed_of w' = set_update (removed_of w) rm"
    unfolding absorbs_def by blast
  show "d \<notin> fst ` set (store_based_of w')"
    using deleted_not_store_based [OF o assms(2)] by (simp add: w')
  show "d \<notin> fst ` set (context_of w')"
    if "es = pre @ (x, BaseModel ''RemoveDoc'' (Some d) c) # post"
      and "\<forall>e \<in> set post. fst e = d \<longrightarrow> is_removal (snd e)" for pre post
    using deleted_last_absent [OF o [unfolded that(1)] that(2)]
    by (simp add: context_of_def w' image_Un)
  show "d \<in> set (removed_of w')" if "d \<noteq> []" and "d \<in> fst ` set store_map"
    using deleted_recorded [OF o assms(2) that] by (simp add: w' set_set_update)
qed

lemma absorbs_absent:
  assumes "absorbs store_map es w w'" and "d \<notin> fst ` set (context_of w)"
    and "\<forall>e \<in> set es. fst e = d \<longrightarrow> is_removal (snd e)"
  shows "d \<notin> fst ` set (context_of w')"
proof -
  from assms(1) obtain sb' eph' rm where
    o: "apply_enricher_output es (store_based_of w) store_map (ephemeral_of w) = (sb', eph', rm)"
    and w': "store_based_of w' = sb'" "ephemeral_of w' = eph'"
    unfolding absorbs_def by blast
  have "d \<notin> fst ` set (store_based_of w)" "d \<notin> fst ` set (ephemeral_of w)"
    using assms(2) by (simp_all add: context_of_def image_Un)
  from absent_output [OF o this assms(3)] show ?thesis
    by (simp add: context_of_def w' image_Un)
qed

subsection \<open>The enricher's pass-through of existing memories\<close>

lemma merge_existing_Nil [simp]: "merge_existing [] results = results"
  by (simp add: merge_existing_def)

lemma merge_existing_Cons:
  "merge_existing ((i, k, m) # prepared) results =
     merge_existing prepared (if i \<in> fst ` set results then results else results @ [(i, m)])"
  by (simp add: merge_existing_def)

lemma merge_existing_entries:
  "set (merge_existing prepared results) \<subseteq> set results \<union> (\<lambda>t. (fst t, snd (snd t))) ` set prepared"
proof (induction prepared arbitrary: results)
  case Nil
  then show ?case by simp
next
  case (Cons t prepared)
  obtain i k m where t: "t = (i, k, m)" by (cases t)
  have "set (merge_existing prepared (if i \<in> fst ` set results then results else results @ [(i, m)]))
        \<subseteq> set (if i \<in> fst ` set results then results else results @ [(i, m)])
          \<union> (\<lambda>t. (fst t, snd (snd t))) ` set prepared"
    by (rule Cons.IH)
  then show ?case unfolding t merge_existing_Cons by (auto split: if_splits)
qed

lemma merge_existing_fresh:
  assumes "distinct (map fst prepared)" and "fst ` set prepared \<inter> fst ` set results = {}"
  shows "merge_existing prepared results = results @ map (\<lambda>t. (fst t, snd (snd t))) prepared"
  using assms
proof (induction prepared arbitrary: results)
  case Nil
  then show ?case by simp
next
  case (Cons t prepared)
  obtain i k m where t: "t = (i, k, m)" by (cases t)
  have new: "i \<notin> fst ` set results" using Cons.prems(2) by (auto simp: t)
  have d: "distinct (map fst prepared)" and ni: "i \<notin> fst ` set prepared"
    using Cons.prems(1) by (simp_all add: t)
  have "fst ` set prepared \<inter> fst ` set (results @ [(i, m)]) = {}"
    using Cons.prems(2) ni by (auto simp: t)
  from Cons.IH [OF d this] new show ?case by (simp add: t merge_existing_Cons)
qed

lemma results_of_Nil [simp]: "results_of uuid4 n [] = []"
  by (simp add: results_of_def)

lemma MemoryEnricher_ainvoke_existing:
  "MemoryEnricher_ainvoke extractor uuid4 e messages (Some (existing_of ms)) n =
     (let prepared = prepared_of ms;
          response = extractor e (uuid4 n) messages prepared
      in (merge_existing prepared (results_of uuid4 (Suc n) response), Suc n + length response))"
  by (simp add: MemoryEnricher_ainvoke_def prepare_existing_of Let_def)

lemma map_of_self_keyed:
  "distinct (map fst sb) \<Longrightarrow> m \<in> set sb \<Longrightarrow> map_of (map (\<lambda>m. (fst m, m)) sb) (fst m) = Some m"
  by (rule map_of_is_SomeI) (auto simp: comp_def)

lemma pass_through_step:
  assumes "distinct (map fst sb)" and "(sid, kind, content) \<in> set sb"
  shows "apply_extracted store_map (sid, Plain content) (map (\<lambda>m. (fst m, m)) sb, ed, rm) =
           (map (\<lambda>m. (fst m, m)) sb, ed, rm)"
proof -
  let ?sd = "map (\<lambda>m. (fst m, m)) sb"
  have g: "map_of ?sd sid = Some (sid, kind, content)"
    using map_of_self_keyed [OF assms] by simp
  have has: "dict_has ?sd sid" using assms(2) by (force simp: dict_has_def)
  have ck: "carried_kind ?sd sid = kind" by (simp add: carried_kind_def dict_get_def g)
  have "(sid, sid, kind, content) \<in> set ?sd" using assms(2) by force
  moreover have "distinct (map fst ?sd)" using assms(1) by (simp add: comp_def)
  ultimately have "dict_set ?sd sid (sid, kind, content) = ?sd" by (rule dict_set_same)
  with has ck show ?thesis by (simp add: upsert_def)
qed

lemma pass_through_fold:
  assumes "distinct (map fst sb)" and "set ms \<subseteq> set sb"
  shows "fold (apply_extracted store_map) (passed_through ms) (map (\<lambda>m. (fst m, m)) sb, ed, rm) =
           (map (\<lambda>m. (fst m, m)) sb, ed, rm)"
  using assms(2)
proof (induction ms)
  case Nil
  then show ?case by (simp add: passed_through_def)
next
  case (Cons m ms)
  obtain sid kind content where m: "m = (sid, kind, content)" by (cases m)
  have "(sid, kind, content) \<in> set sb" using Cons.prems by (simp add: m)
  from pass_through_step [OF assms(1) this, of store_map ed rm] Cons
  show ?case by (simp add: passed_through_def m del: apply_extracted.simps)
qed

lemma dict_of_Nil [simp]: "dict_of key val [] = []"
  by (simp add: dict_of_def)

lemma pass_through_output:
  assumes "distinct (map fst sb)"
  shows "apply_enricher_output (passed_through sb) sb store_map [] = (sb, [], [])"
  using pass_through_fold [OF assms subset_refl, of store_map "[]" "[]"] assms
  by (simp add: apply_enricher_output_def dict_of_distinct dict_values_def comp_def)

lemma set_update_Nil [simp]: "set_update s [] = s"
  by (simp add: set_update_def)

lemma final_put_seed:
  assumes "distinct (map fst store_map)" and "(sid, item) \<in> set store_map"
  shows "final_put namespace store_map []
           (sid, v_kind (it_value item), v_content (it_value item)) = None"
  using assms by (simp add: final_put_def dict_get_def)

lemma map_filter_None: "\<forall>x \<in> set xs. f x = None \<Longrightarrow> List.map_filter f xs = []"
  by (induction xs) simp_all

lemma final_puts_seed:
  assumes "distinct (map fst store_map)"
  shows "final_puts namespace store_map [] (seed_store_based store_map) = []"
proof -
  have "\<forall>m \<in> set (seed_store_based store_map). final_put namespace store_map [] m = None"
    using final_put_seed [OF assms] by (auto simp: seed_store_based_def)
  then show ?thesis unfolding final_puts_def by (rule map_filter_None)
qed

lemma final_deletes_Nil [simp]: "final_deletes store_map [] = []"
  by (simp add: final_deletes_def)

subsection \<open>Records that no operation references\<close>

lemma dict_set_other: "p \<in> set d \<Longrightarrow> fst p \<noteq> k \<Longrightarrow> p \<in> set (dict_set d k v)"
  by (induction d) auto

lemma dict_pop_other: "p \<in> set d \<Longrightarrow> fst p \<noteq> k \<Longrightarrow> p \<in> set (dict_pop d k)"
  by (simp add: dict_pop_def)

lemma kept_upsert_other:
  assumes "distinct (map fst sd)" and "(sid, m) \<in> set sd" and "i \<noteq> sid"
    and "upsert i kind c (sd, ed, rm) = (sd', ed', rm')"
  shows "distinct (map fst sd') \<and> (sid, m) \<in> set sd' \<and> rm' = rm
       \<and> (sid \<notin> fst ` set ed \<longrightarrow> sid \<notin> fst ` set ed')"
proof (cases "i \<in> fst ` set sd")
  case True
  then have "sd' = dict_set sd i (i, kind, c)" "ed' = ed" "rm' = rm"
    using assms(4) by (simp_all add: upsert_def dict_has_iff)
  with assms(1,2,3) show ?thesis
    by (simp add: distinct_dict_set dict_set_other)
next
  case False
  then have "sd' = sd" "ed' = dict_set ed i (i, kind, c)" "rm' = rm"
    using assms(4) by (simp_all add: upsert_def dict_has_iff)
  with assms(1,2,3) show ?thesis by (simp add: keys_dict_set)
qed

lemma kept_step:
  assumes "distinct (map fst sd)" and "(sid, sid, k, c) \<in> set sd" and "leaves_alone sid c e"
    and "apply_extracted store_map e (sd, ed, rm) = (sd', ed', rm')"
  shows "distinct (map fst sd') \<and> (sid, sid, k, c) \<in> set sd'
       \<and> (sid \<notin> set rm \<longrightarrow> sid \<notin> set rm')
       \<and> (sid \<notin> fst ` set ed \<longrightarrow> sid \<notin> fst ` set ed')"
proof -
  obtain i p where e: "e = (i, p)" by (cases e)
  have la: "i = sid \<longrightarrow> p = Plain c" "is_removal p \<longrightarrow> json_doc_id p \<noteq> Some sid"
    using assms(3) by (simp_all add: leaves_alone_def e)
  show ?thesis
  proof (cases p)
    case (BaseModel name rid dump)
    then have i: "i \<noteq> sid" using la(1) by auto
    show ?thesis
    proof (cases "name = ''RemoveDoc''")
      case True
      show ?thesis
      proof (cases rid)
        case None
        then show ?thesis
          using assms(1,2,4) by (simp add: e BaseModel True apply_extracted_remove_none del: apply_extracted.simps)
      next
        case (Some d)
        have d: "d \<noteq> sid" using la(2) by (simp add: BaseModel True Some is_removal_def)
        have "sd' = dict_pop sd d" "ed' = dict_pop ed d" "set rm' \<subseteq> insert d (set rm)"
          using assms(4)
          by (auto simp: e BaseModel True Some apply_extracted_remove
              simp del: apply_extracted.simps split: if_splits)
        with assms(1,2) d show ?thesis
          by (auto simp: distinct_dict_pop dict_pop_other keys_dict_pop)
      qed
    next
      case False
      then have "upsert i name dump (sd, ed, rm) = (sd', ed', rm')"
        using assms(4) by (simp add: e BaseModel)
      from kept_upsert_other [OF assms(1,2) i this] show ?thesis by simp
    qed
  next
    case (Plain c')
    show ?thesis
    proof (cases "i = sid")
      case True
      then have c': "c' = c" using la(1) by (simp add: Plain)
      have g: "map_of sd sid = Some (sid, k, c)" using assms(1,2) by simp
      have "dict_has sd sid" using assms(2) by (force simp: dict_has_def)
      moreover have "carried_kind sd sid = k" by (simp add: carried_kind_def dict_get_def g)
      moreover have "dict_set sd sid (sid, k, c) = sd" by (rule dict_set_same [OF assms(2,1)])
      ultimately have "apply_extracted store_map e (sd, ed, rm) = (sd, ed, rm)"
        by (simp add: e Plain True c' upsert_def)
      with assms(1,2,4) show ?thesis by simp
    next
      case False
      have "upsert i (carried_kind sd i) c' (sd, ed, rm) = (sd', ed', rm')"
        using assms(4) by (simp add: e Plain)
      from kept_upsert_other [OF assms(1,2) False this] show ?thesis by simp
    qed
  qed
qed

lemma kept_fold:
  assumes "fold (apply_extracted store_map) es (sd, ed, rm) = (sd', ed', rm')"
    and "distinct (map fst sd)" and "(sid, sid, k, c) \<in> set sd"
    and "\<forall>e \<in> set es. leaves_alone sid c e"
    and "sid \<notin> set rm" and "sid \<notin> fst ` set ed"
  shows "(sid, sid, k, c) \<in> set sd' \<and> sid \<notin> set rm' \<and> sid \<notin> fst ` set ed'"
  using assms
proof (induction es arbitrary: sd ed rm)
  case Nil
  then show ?case by simp
next
  case (Cons e es)
  obtain sd1 ed1 rm1 where s: "apply_extracted store_map e (sd, ed, rm) = (sd1, ed1, rm1)"
    by (metis prod_cases3)
  have la: "leaves_alone sid c e" using Cons.prems(4) by simp
  from kept_step [OF Cons.prems(2,3) la s] Cons.prems(5,6)
  have k1: "distinct (map fst sd1)" "(sid, sid, k, c) \<in> set sd1" "sid \<notin> set rm1"
    "sid \<notin> fst ` set ed1"
    by simp_all
  have f: "fold (apply_extracted store_map) es (sd1, ed1, rm1) = (sd', ed', rm')"
    using Cons.prems(1) by (simp add: s del: apply_extracted.simps)
  have "\<forall>e \<in> set es. leaves_alone sid c e" using Cons.prems(4) by simp
  from Cons.IH [OF f k1(1,2) this k1(3,4)] show ?case .
qed

lemma kept_output:
  assumes "apply_enricher_output es sb store_map eph = (sb', eph', rm)"
    and "distinct (map fst sb)" and "(sid, k, c) \<in> set sb"
    and "\<forall>e \<in> set es. leaves_alone sid c e" and "sid \<notin> fst ` set eph"
  shows "(sid, k, c) \<in> set sb' \<and> sid \<notin> set rm \<and> sid \<notin> fst ` set eph'"
proof -
  obtain sd ed rm0 where f: "fold (apply_extracted store_map) es
       (dict_of fst (\<lambda>m. m) sb, dict_of fst (\<lambda>m. m) eph, []) = (sd, ed, rm0)"
    and o: "apply_enricher_output es sb store_map eph = (dict_values sd, dict_values ed, rm0)"
    and ky: "keyed sd" "keyed ed"
    by (rule apply_enricher_output_state)
  have eq: "sb' = dict_values sd" "eph' = dict_values ed" "rm = rm0" using assms(1) o by simp_all
  have d0: "distinct (map fst (dict_of fst (\<lambda>m. m) sb))" by (rule distinct_dict_of)
  have in0: "(sid, sid, k, c) \<in> set (dict_of fst (\<lambda>m. m) sb)"
    using assms(2,3) by (force simp: dict_of_distinct)
  have e0: "sid \<notin> fst ` set (dict_of fst (\<lambda>m. m) eph)" using assms(5) by (simp add: keys_dict_of)
  have kf: "(sid, sid, k, c) \<in> set sd \<and> sid \<notin> set rm0 \<and> sid \<notin> fst ` set ed"
    by (rule kept_fold [OF f d0 in0 assms(4) _ e0]) simp
  then have "snd (sid, sid, k, c) \<in> snd ` set sd" by (intro imageI) simp
  then have "(sid, k, c) \<in> set (dict_values sd)" by (simp add: dict_values_def)
  moreover have "sid \<notin> fst ` set (dict_values ed)" using kf ky(2) by (simp add: ids_values)
  ultimately show ?thesis using kf by (simp add: eq)
qed

lemma merged_leave_alone:
  assumes "\<forall>e \<in> set results. fst e \<noteq> sid \<and> leaves_alone sid c e"
    and "distinct (map fst ms)" and "(sid, k, c) \<in> set ms"
  shows "\<forall>e \<in> set (merge_existing
            (prepared_of ms) results).
           leaves_alone sid c e"
proof
  fix e
  let ?prepared = "prepared_of ms"
  assume "e \<in> set (merge_existing ?prepared results)"
  then consider "e \<in> set results" | "e \<in> (\<lambda>t. (fst t, snd (snd t))) ` set ?prepared"
    using merge_existing_entries [of ?prepared results] by blast
  then show "leaves_alone sid c e"
  proof cases
    case 1
    then show ?thesis using assms(1) by blast
  next
    case 2
    then obtain i kind content where m: "(i, kind, content) \<in> set ms" and e: "e = (i, Plain content)"
      by (auto simp: prepared_of_def)
    show ?thesis
    proof (cases "i = sid")
      case True
      have "(kind, content) = (k, c)"
        using assms(2,3) m True by (metis eq_key_imp_eq_value)
      then show ?thesis by (simp add: leaves_alone_def e is_removal_def)
    next
      case False
      then show ?thesis by (simp add: leaves_alone_def e is_removal_def)
    qed
  qed
qed

lemma work_inv_context:
  assumes "work_inv K w"
  shows "distinct (map fst (store_based_of w))" and "distinct (map fst (context_of w))"
    and "fst ` set (store_based_of w) \<inter> fst ` set (ephemeral_of w) = {}"
    and "fst ` set (store_based_of w) \<inter> set (removed_of w) = {}"
proof -
  obtain sb eph removed n where w: "w = (sb, eph, removed, n)" by (cases w)
  have i: "distinct (map fst sb)" "distinct (map fst eph)"
    "fst ` set sb \<subseteq> K" "fst ` set sb \<inter> set removed = {}"
    "fst ` set eph \<inter> K \<subseteq> set removed"
    using assms by (simp_all add: w work_inv_def)
  have disj: "fst ` set sb \<inter> fst ` set eph = {}" using i(3,4,5) by blast
  show "distinct (map fst (store_based_of w))" using i(1) by (simp add: w store_based_of_def)
  show "distinct (map fst (context_of w))"
    using i(1,2) disj by (simp add: w context_of_def store_based_of_def ephemeral_of_def)
  show "fst ` set (store_based_of w) \<inter> fst ` set (ephemeral_of w) = {}"
    using disj by (simp add: w store_based_of_def ephemeral_of_def)
  show "fst ` set (store_based_of w) \<inter> set (removed_of w) = {}"
    using i(4) by (simp add: w store_based_of_def removed_of_def)
qed

lemma absorbs_kept:
  assumes "absorbs store_map es w w'" and "work_inv K w"
    and "(sid, k, c) \<in> set (store_based_of w)" and "\<forall>e \<in> set es. leaves_alone sid c e"
  shows "(sid, k, c) \<in> set (store_based_of w')"
proof -
  from assms(1) obtain sb' eph' rm where
    o: "apply_enricher_output es (store_based_of w) store_map (ephemeral_of w) = (sb', eph', rm)"
    and w': "store_based_of w' = sb'"
    unfolding absorbs_def by blast
  have "fst (sid, k, c) \<in> fst ` set (store_based_of w)" using assms(3) by (rule imageI)
  then have "sid \<notin> fst ` set (ephemeral_of w)"
    using work_inv_context(3) [OF assms(2)] by auto
  from kept_output [OF o work_inv_context(1) [OF assms(2)] assms(3,4) this]
  show ?thesis by (simp add: w')
qed

lemma seed_member:
  "(sid, item) \<in> set store_map \<Longrightarrow>
     (sid, v_kind (it_value item), v_content (it_value item)) \<in> set (seed_store_based store_map)"
  by (force simp: seed_store_based_def)

lemma reproposed_unchanged:
  assumes "distinct (map fst sb)" and "distinct (map fst eph)" and "(sid, k, c) \<in> set sb"
    and "p = Plain c \<or> (\<exists>rid. p = BaseModel k rid c \<and> k \<noteq> ''RemoveDoc'')"
  shows "apply_enricher_output [(sid, p)] sb store_map eph = (sb, eph, [])"
proof -
  let ?sd = "map (\<lambda>m. (fst m, m)) sb" and ?ed = "map (\<lambda>m. (fst m, m)) eph"
  have "apply_extracted store_map (sid, p) (?sd, ?ed, []) = (?sd, ?ed, [])"
  proof (rule disjE [OF assms(4)])
    assume "p = Plain c"
    then show ?thesis using pass_through_step [OF assms(1,3)] by simp
  next
    assume "\<exists>rid. p = BaseModel k rid c \<and> k \<noteq> ''RemoveDoc''"
    then obtain rid where p: "p = BaseModel k rid c" and k: "k \<noteq> ''RemoveDoc''" by blast
    have has: "dict_has ?sd sid" using assms(3) by (force simp: dict_has_def)
    have "(sid, sid, k, c) \<in> set ?sd" using assms(3) by force
    moreover have "distinct (map fst ?sd)" using assms(1) by (simp add: comp_def)
    ultimately have "dict_set ?sd sid (sid, k, c) = ?sd" by (rule dict_set_same)
    with has k show ?thesis by (simp add: p upsert_def)
  qed
  then show ?thesis
    using assms(1,2)
    by (simp add: apply_enricher_output_def dict_of_distinct dict_values_def comp_def
        del: apply_extracted.simps)
qed

subsection \<open>The blocking path\<close>

lemma MemoryEnricher_invoke_ainvoke:
  "MemoryEnricher_invoke extractor uuid4 e messages existing n =
   MemoryEnricher_ainvoke extractor uuid4 e messages existing n"
  by (simp add: MemoryEnricher_invoke_def MemoryEnricher_ainvoke_def)

lemma enrich_sync_async:
  "enrich_sync extractor uuid4 self messages store_map = enrich_async extractor uuid4 self messages store_map"
  by (rule ext) (simp add: enrich_sync_def enrich_async_def MemoryEnricher_invoke_ainvoke)

lemma phase_sync_async:
  "phase_sync extractor uuid4 self messages store_map = phase_async extractor uuid4 self messages store_map"
  by (intro ext) (simp add: phase_sync_def phase_async_def MemoryEnricher_invoke_ainvoke)

subsection \<open>String memories\<close>

lemma map_enumerate_fst: "map (\<lambda>p. f (fst p)) (enumerate k xs) = map f [k ..< k + length xs]"
proof -
  have "map f (map fst (enumerate k xs)) = map f [k ..< k + length xs]"
    by (simp only: map_fst_enumerate)
  then show ?thesis by (simp only: map_map comp_def)
qed

lemma map_enumerate_snd: "map (\<lambda>p. f (snd p)) (enumerate k xs) = map f xs"
proof -
  have "map f (map snd (enumerate k xs)) = map f xs"
    by (simp only: map_snd_enumerate)
  then show ?thesis by (simp only: map_map comp_def)
qed

lemma prepare_strings_ids:
  "map fst (fst (prepare_existing self uuid4 (Some (Strings exs)) n)) = map uuid4 [n ..< n + length exs]"
proof -
  have "map fst (fst (prepare_existing self uuid4 (Some (Strings exs)) n))
        = map (\<lambda>p. uuid4 (n + fst p)) (enumerate 0 exs)"
    by (simp add: comp_def case_prod_unfold)
  also have "\<dots> = map (\<lambda>i. uuid4 (n + i)) [0 ..< 0 + length exs]"
    by (rule map_enumerate_fst)
  also have "\<dots> = map uuid4 (map (\<lambda>i. i + n) [0 ..< length exs])"
    by (simp add: comp_def add.commute)
  also have "map (\<lambda>i. i + n) [0 ..< length exs] = [n ..< n + length exs]"
    by (simp add: map_add_upt add.commute)
  finally show ?thesis .
qed

lemma prepare_strings_values:
  "map (\<lambda>t. snd (snd t)) (fst (prepare_existing self uuid4 (Some (Strings exs)) n)) =
     map (\<lambda>ex. BaseModel (schema_name (first_schema self)) None (schema_dump (first_schema self) ex)) exs"
proof -
  have "map (\<lambda>t. snd (snd t)) (fst (prepare_existing self uuid4 (Some (Strings exs)) n)) =
     map (\<lambda>p. BaseModel (schema_name (first_schema self)) None (schema_dump (first_schema self) (snd p)))
       (enumerate 0 exs)"
    by (simp add: comp_def case_prod_unfold)
  also have "\<dots> = map (\<lambda>ex. BaseModel (schema_name (first_schema self)) None
                             (schema_dump (first_schema self) ex)) exs"
    by (rule map_enumerate_snd)
  finally show ?thesis .
qed

lemma prepare_strings_kinds:
  "map (\<lambda>t. fst (snd t)) (fst (prepare_existing self uuid4 (Some (Strings exs)) n)) =
     replicate (length exs) ''Memory''"
  by (simp add: comp_def case_prod_unfold map_replicate_const)

subsection \<open>A deletion whose metadata has no identifier\<close>

text \<open>
  The enricher gives a deletion the identifier of its metadata, or a fresh one when the
  metadata has none. In the second case the deleted record counts as an existing memory
  that was not updated: the enricher appends it after the deletion, and the merge writes
  it again, as an ephemeral record of kind \<^verbatim>\<open>Memory\<close>, which the run puts.
\<close>

lemma deletion_without_metadata_id_is_undone:
  "last_ephemeral ex_run7 = [(''uu'', ''Memory'', ''has a dog'')]
   \<and> returned ex_run7 = [put_at [''memories'', ''u1''] ''uu'' ''Memory'' ''has a dog'']"
  by code_simp

subsection \<open>The operations of a run\<close>

lemma first_enriched_results:
  "first_enriched extractor uuid4 self messages w =
     merge_existing (prepared_of (store_based_of w)) (first_results extractor uuid4 self messages w)"
  by (cases w)
     (simp add: first_enriched_def first_results_def store_based_of_def
        MemoryEnricher_ainvoke_existing Let_def)

lemma phase_enriched_results:
  "phase_enriched extractor uuid4 self messages phase w =
     merge_existing (prepared_of (context_of w)) (phase_results extractor uuid4 self messages phase w)"
  by (cases w)
     (simp add: phase_enriched_def phase_results_def context_of_def store_based_of_def
        ephemeral_of_def MemoryEnricher_ainvoke_existing Let_def)

lemma unreferenced_leave_alone:
  assumes "\<forall>e \<in> set results. \<not> references sid e"
  shows "\<forall>e \<in> set results. fst e \<noteq> sid \<and> leaves_alone sid c e"
  using assms by (simp add: references_def leaves_alone_def)

lemma first_enriched_leave_alone:
  assumes "\<forall>e \<in> set (first_results extractor uuid4 self messages w). \<not> references sid e"
    and "work_inv K w" and "(sid, k, c) \<in> set (store_based_of w)"
  shows "\<forall>x \<in> set (first_enriched extractor uuid4 self messages w). leaves_alone sid c x"
  unfolding first_enriched_results
  by (rule merged_leave_alone [OF unreferenced_leave_alone [OF assms(1)]
        work_inv_context(1) [OF assms(2)] assms(3)])

lemma phase_enriched_leave_alone:
  assumes "\<forall>e \<in> set (phase_results extractor uuid4 self messages phase w). \<not> references sid e"
    and "work_inv K w" and "(sid, k, c) \<in> set (store_based_of w)"
  shows "\<forall>x \<in> set (phase_enriched extractor uuid4 self messages phase w). leaves_alone sid c x"
proof -
  have "(sid, k, c) \<in> set (context_of w)" using assms(3) by (simp add: context_of_def)
  from merged_leave_alone [OF unreferenced_leave_alone [OF assms(1)]
        work_inv_context(2) [OF assms(2)] this]
  show ?thesis unfolding phase_enriched_results .
qed

lemma kept_phases:
  assumes "[] \<notin> fst ` set store_map"
  shows "work_inv (fst ` set store_map) w \<Longrightarrow> (sid, k, c) \<in> set (store_based_of w) \<Longrightarrow>
    \<forall>ops \<in> set (later_results extractor uuid4 self messages store_map ps w).
       \<forall>e \<in> set ops. \<not> references sid e \<Longrightarrow>
    (sid, k, c) \<in> set (store_based_of
       (fold (phase_async extractor uuid4 self messages store_map) ps w))"
proof (induction ps arbitrary: w)
  case Nil
  then show ?case by simp
next
  case (Cons ph ps)
  let ?w = "phase_async extractor uuid4 self messages store_map ph w"
  have now: "\<forall>e \<in> set (phase_results extractor uuid4 self messages ph w). \<not> references sid e"
    and later: "\<forall>ops \<in> set (later_results extractor uuid4 self messages store_map ps ?w).
       \<forall>e \<in> set ops. \<not> references sid e"
    using Cons.prems(3) by simp_all
  have inv: "work_inv (fst ` set store_map) ?w"
    by (rule work_inv_phase_async [OF Cons.prems(1) assms])
  have "(sid, k, c) \<in> set (store_based_of ?w)"
    by (rule absorbs_kept [OF absorbs_phase_async Cons.prems(1,2)
          phase_enriched_leave_alone [OF now Cons.prems(1,2)]])
  from Cons.IH [OF inv this later] show ?case by simp
qed

lemma results_of_empty: "results_of uuid4 n response = [] \<longleftrightarrow> response = []"
  by (simp add: results_of_def enumerate_eq_zip)

lemma enriched_silent:
  assumes "results_of uuid4 (Suc n) (extractor e (uuid4 n) messages (prepared_of ms)) = []"
    and "distinct (map fst ms)"
  shows "MemoryEnricher_ainvoke extractor uuid4 e messages (Some (existing_of ms)) n =
           (passed_through ms, Suc n)"
proof -
  have r: "extractor e (uuid4 n) messages (prepared_of ms) = []"
    using assms(1) by (simp add: results_of_empty)
  have pm: "map fst (prepared_of ms) = map fst ms"
    by (simp add: prepared_of_def comp_def case_prod_unfold)
  have "distinct (map fst (prepared_of ms))" unfolding pm by (rule assms(2))
  from merge_existing_fresh [OF this, of "[]"]
  have "merge_existing (prepared_of ms) [] = passed_through ms"
    by (simp add: passed_through_def prepared_of_def comp_def case_prod_unfold)
  then show ?thesis by (simp add: MemoryEnricher_ainvoke_existing r)
qed

lemma silent_enrich_async:
  assumes "first_results extractor uuid4 self messages (sb, [], [], n) = []" and "distinct (map fst sb)"
  shows "enrich_async extractor uuid4 self messages store_map (sb, [], [], n) = (sb, [], [], Suc n)"
proof -
  have "MemoryEnricher_ainvoke extractor uuid4 (memory_enricher self) messages
          (Some (existing_of sb)) n = (passed_through sb, Suc n)"
    using assms(2)
    by (intro enriched_silent) (use assms(1) in \<open>simp_all add: first_results_def\<close>)
  then show ?thesis by (simp add: enrich_async_def pass_through_output [OF assms(2)])
qed

lemma silent_phase_async:
  assumes "phase_results extractor uuid4 self messages phase (sb, [], [], n) = []"
    and "distinct (map fst sb)"
  shows "phase_async extractor uuid4 self messages store_map phase (sb, [], [], n) = (sb, [], [], Suc n)"
proof -
  have "MemoryEnricher_ainvoke extractor uuid4 (build_phase_enricher self phase)
          (if (case ph_include_messages phase of None \<Rightarrow> False | Some b \<Rightarrow> b) then messages else [])
          (Some (existing_of (sb @ []))) n = (passed_through (sb @ []), Suc n)"
    using assms(2)
    by (intro enriched_silent) (use assms(1) in \<open>simp_all add: phase_results_def\<close>)
  then show ?thesis by (simp add: phase_async_def pass_through_output [OF assms(2)])
qed

lemma silent_phases:
  assumes "distinct (map fst sb)"
  shows "\<forall>ops \<in> set (later_results extractor uuid4 self messages store_map ps (sb, [], [], n)). ops = []
    \<Longrightarrow> fold (phase_async extractor uuid4 self messages store_map) ps (sb, [], [], n) =
           (sb, [], [], n + length ps)"
proof (induction ps arbitrary: n)
  case Nil
  then show ?case by simp
next
  case (Cons ph ps)
  have now: "phase_results extractor uuid4 self messages ph (sb, [], [], n) = []"
    using Cons.prems by simp
  note step = silent_phase_async [OF now assms, of store_map]
  have "\<forall>ops \<in> set (later_results extractor uuid4 self messages store_map ps (sb, [], [], Suc n)).
          ops = []"
    using Cons.prems by (simp add: step)
  from Cons.IH [OF this] show ?case by (simp add: step)
qed

lemma asyncio_gather_accepting: "asyncio_gather (\<lambda>op. False) ops store = Inr (fold store_apply ops store)"
  by (simp add: asyncio_gather_def list_ex_iff)

lemma executor_submit_accepting: "executor_submit (\<lambda>op. False) ops store = fold store_apply ops store"
  by (simp add: executor_submit_def)

lemma executor_submit_none_refused:
  "\<not> list_ex fails ops \<Longrightarrow> executor_submit fails ops store = fold store_apply ops store"
  by (simp add: executor_submit_def list_ex_iff)

text \<open>On a store that accepts every write, the runs are those of \<open>ainvoke\<close> and \<open>invoke\<close>.\<close>

lemma ainvoke_fallible_accepting:
  "ainvoke_fallible (\<lambda>op. False) extractor uuid4 uuid5 self namespace messages srl store n =
     Inr (ainvoke extractor uuid4 uuid5 self namespace messages srl store n)"
  by (simp add: ainvoke_fallible_def ainvoke_def asyncio_gather_accepting Let_def split: prod.split)

lemma invoke_fallible_accepting:
  "invoke_fallible (\<lambda>op. False) extractor uuid4 uuid5 self namespace messages srl store n =
     Inr (invoke extractor uuid4 uuid5 self namespace messages srl store n)"
  by (simp add: invoke_fallible_def invoke_def executor_submit_accepting Let_def split: prod.split)

text \<open>On such a store the two paths leave the same run, and so do the two paths of
  \<^verbatim>\<open>MemoryEnricher\<close>.\<close>

lemma invoke_ainvoke_accepting:
  "invoke extractor uuid4 uuid5 self namespace messages srl store n =
     ainvoke extractor uuid4 uuid5 self namespace messages srl store n
   \<and> MemoryEnricher_invoke extractor uuid4 e messages existing n =
     MemoryEnricher_ainvoke extractor uuid4 e messages existing n"
  by (simp add: invoke_def ainvoke_def enrich_sync_async phase_sync_async
      MemoryEnricher_invoke_ainvoke)

section \<open>The claims\<close>

text \<open>
  Claim C3. At the end of a run the persistence plan is exactly the one the specification
  describes: a put at the original place for each surviving store-backed record whose
  kind or content differs from the snapshot, a put in the target namespace under the
  record's own identifier for each surviving ephemeral record, and one delete at the
  original place for each retired identifier; every retired identifier belongs to the
  snapshot, so an identifier that was never store-backed yields no delete. The
  identifiers of the final records are pairwise distinct, so each record stands for one
  put at most. The hash never yields the empty string (\<^verbatim>\<open>uuid5(...).hex\<close> has 32
  characters).
\<close>

theorem C3_persistence_plan_exact:
  assumes "\<forall>t. uuid5 t \<noteq> []"
    and "store_map = sort_results uuid5 srl (query_limit self)"
    and "r = ainvoke extractor uuid4 uuid5 self namespace messages srl store n"
  shows "returned r = spec_puts namespace store_map (last_removed_ids r)
                        (last_store_based r) (last_ephemeral r)
       \<and> issued r = map Put (returned r) @ map Delete (spec_deletes store_map (last_removed_ids r))
       \<and> length (spec_deletes store_map (last_removed_ids r)) = length (last_removed_ids r)
       \<and> set (last_removed_ids r) \<subseteq> fst ` set store_map
       \<and> distinct (last_removed_ids r)
       \<and> fst ` set (last_store_based r) \<subseteq> fst ` set store_map - set (last_removed_ids r)
       \<and> fst ` set (last_ephemeral r) \<inter> fst ` set store_map \<subseteq> set (last_removed_ids r)
       \<and> distinct (map fst (last_store_based r @ last_ephemeral r))"
proof -
  obtain sb eph removed n' where
    w: "fold (phase_async extractor uuid4 self messages store_map) (phases self)
          (enrich_async extractor uuid4 self messages store_map
             (seed_store_based store_map, [], [], n)) = (sb, eph, removed, n')"
    by (metis prod_cases4)
  have inv: "work_inv (fst ` set store_map) (sb, eph, removed, n')"
    using work_inv_run [OF assms(1), of srl "query_limit self" extractor uuid4 self messages
        "phases self" n]
    by (simp add: w [unfolded assms(2)] assms(2))
  have r: "returned r = final_puts namespace store_map removed (sb @ eph)"
    "issued r = map Put (returned r) @ map Delete (final_deletes store_map removed)"
    "last_store_based r = sb" "last_ephemeral r = eph" "last_removed_ids r = removed"
    by (simp_all add: assms(3) ainvoke_unfold w [unfolded assms(2)] assms(2))
  have i: "distinct (map fst sb)" "distinct (map fst eph)"
    "fst ` set sb \<subseteq> fst ` set store_map" "fst ` set sb \<inter> set removed = {}"
    "fst ` set eph \<inter> fst ` set store_map \<subseteq> set removed" "set removed \<subseteq> fst ` set store_map"
    "distinct removed"
    using inv by (simp_all add: work_inv_def)
  have disj: "fst ` set sb \<inter> fst ` set eph = {}" using i(3,4,5) by blast
  have sub: "fst ` set sb \<subseteq> fst ` set store_map - set removed" using i(3,4) by blast
  show ?thesis
    unfolding r
    using i(1,2,5,6,7) disj sub
    by (simp add: final_puts_spec [OF inv] spec_deletes_final length_spec_deletes)
qed

theorem C3_persistence_plan_exact_witness:
  "(\<forall>t. ex_uuid5 t \<noteq> [])
   \<and> returned ex_run1 =
       [put_at [''memories'', ''u1''] ''k1'' ''Memory'' ''likes pasta'',
        put_at [''memories'', ''u1''] ''uuuu'' ''Memory'' ''has a dog'']
   \<and> issued ex_run1 =
       [Put (put_at [''memories'', ''u1''] ''k1'' ''Memory'' ''likes pasta''),
        Put (put_at [''memories'', ''u1''] ''uuuu'' ''Memory'' ''has a dog''),
        Delete ([''memories'', ''u1''], ''k2'')]"
proof -
  have h: "\<forall>t. ex_uuid5 t \<noteq> []" by (simp add: ex_uuid5_def)
  note c = C3_persistence_plan_exact [OF h refl ex_run1_def]
  have p: "returned ex_run1 =
       [put_at [''memories'', ''u1''] ''k1'' ''Memory'' ''likes pasta'',
        put_at [''memories'', ''u1''] ''uuuu'' ''Memory'' ''has a dog'']"
    unfolding c [THEN conjunct1] by code_simp
  have d: "issued ex_run1 = map Put (returned ex_run1) @ [Delete ([''memories'', ''u1''], ''k2'')]"
    unfolding c [THEN conjunct2, THEN conjunct1] by code_simp
  show ?thesis using h p d by simp
qed



text \<open>
  Claim C9. A non-delete operation whose identifier is, when the merge reaches it,
  neither a store-backed nor an ephemeral record raises no error: the merge is a total
  function, and gives the state it had before that operation with one more ephemeral
  record under the identifier, of the kind and content the operation writes.
\<close>

theorem C9_unknown_id_becomes_ephemeral:
  assumes "apply_enricher_output es sb store_map eph = (sb1, eph1, rm1)"
    and "\<not> is_removal p" and "i \<notin> fst ` set sb1" and "i \<notin> fst ` set eph1"
  shows "apply_enricher_output (es @ [(i, p)]) sb store_map eph =
           (sb1, eph1 @ [(i, written_kind p, written_content p)], rm1)"
proof -
  obtain sd ed rm where f: "fold (apply_extracted store_map) es
       (dict_of fst (\<lambda>m. m) sb, dict_of fst (\<lambda>m. m) eph, []) = (sd, ed, rm)"
    and o: "apply_enricher_output es sb store_map eph = (dict_values sd, dict_values ed, rm)"
    and k: "keyed sd" "keyed ed"
    by (rule apply_enricher_output_state)
  have eq: "sb1 = dict_values sd" "eph1 = dict_values ed" "rm1 = rm"
    using assms(1) o by simp_all
  have "i \<notin> fst ` set sd" "i \<notin> fst ` set ed"
    using assms(3,4) k by (simp_all add: eq ids_values)
  from apply_extracted_new [OF assms(2) this]
  have "fold (apply_extracted store_map) (es @ [(i, p)])
       (dict_of fst (\<lambda>m. m) sb, dict_of fst (\<lambda>m. m) eph, []) =
       (sd, ed @ [(i, i, written_kind p, written_content p)], rm)"
    by (simp add: f del: apply_extracted.simps)
  then show ?thesis by (simp add: apply_enricher_output_def eq dict_values_def)
qed

theorem C9_unknown_id_becomes_ephemeral_witness:
  "apply_enricher_output [(''#memoriesu1k1'', Plain ''likes pasta'')]
       [(''#memoriesu1k1'', ''Memory'', ''likes sushi'')]
       [(''#memoriesu1k1'', ex_item ''k1'' ''likes sushi'' None)] [] =
     ([(''#memoriesu1k1'', ''Memory'', ''likes pasta'')], [], [])
   \<and> \<not> is_removal (BaseModel ''Memory'' None ''has a dog'')
   \<and> ''nobody'' \<notin> fst ` set [(''#memoriesu1k1'', ''Memory'', ''likes pasta'')]
   \<and> ''nobody'' \<notin> fst ` set ([] :: string mem list)
   \<and> apply_enricher_output
       [(''#memoriesu1k1'', Plain ''likes pasta''), (''nobody'', BaseModel ''Memory'' None ''has a dog'')]
       [(''#memoriesu1k1'', ''Memory'', ''likes sushi'')]
       [(''#memoriesu1k1'', ex_item ''k1'' ''likes sushi'' None)] [] =
     ([(''#memoriesu1k1'', ''Memory'', ''likes pasta'')], [(''nobody'', ''Memory'', ''has a dog'')], [])"
proof -
  have a: "apply_enricher_output [(''#memoriesu1k1'', Plain ''likes pasta'')]
       [(''#memoriesu1k1'', ''Memory'', ''likes sushi'')]
       [(''#memoriesu1k1'', ex_item ''k1'' ''likes sushi'' None)] [] =
     ([(''#memoriesu1k1'', ''Memory'', ''likes pasta'')], [], [])"
    by code_simp
  have b: "\<not> is_removal (BaseModel ''Memory'' None ''has a dog'')"
    by (simp add: is_removal_def)
  have c: "''nobody'' \<notin> fst ` set [(''#memoriesu1k1'', ''Memory'', ''likes pasta'')]"
    "''nobody'' \<notin> fst ` set ([] :: string mem list)"
    by simp_all
  from C9_unknown_id_becomes_ephemeral [OF a b c] a b c show ?thesis
    by (simp add: written_kind_def written_content_def)
qed

text \<open>
  Claim C4 (the code departs from it). The kind of an unstructured payload is looked up
  in the store-backed records only, and the default is the literal \<^verbatim>\<open>"Memory"\<close>. An
  ephemeral record of kind \<^verbatim>\<open>PreferenceMemory\<close> that the enricher passes through
  unchanged comes out of the merge with kind \<^verbatim>\<open>Memory\<close>: the run that extracts one
  structured memory stores it with its own kind when no phase follows, and with kind
  \<^verbatim>\<open>Memory\<close> when a phase follows in which the extractor proposes nothing.
\<close>

theorem C4_ephemeral_kind_not_carried:
  "apply_enricher_output [(''uu'', Plain ''dark mode'')] [] []
       [(''uu'', ''PreferenceMemory'', ''dark mode'')] =
     ([], [(''uu'', ''Memory'', ''dark mode'')], [])
   \<and> returned (ex_run3 []) =
       [put_at [''memories'', ''u1''] ''uu'' ''PreferenceMemory'' ''dark mode'']
   \<and> returned (ex_run3 [ex_phase]) =
       [put_at [''memories'', ''u1''] ''uu'' ''Memory'' ''dark mode'']"
  by code_simp

text \<open>
  Claim C2, as the code has it. When a delete and a content update of one phase name the
  same identifier, the identifier is not store-backed after the phase, whatever their
  order; when no content update of the identifier follows the delete, the record is in
  neither output set; and when the identifier is a non-empty identifier of the store
  snapshot, the phase records it as retired, and under any set of retired identifiers
  that holds those of the phase no record of that identifier yields a put.
\<close>

theorem C2_delete_and_update_same_id:
  assumes "apply_enricher_output es sb store_map eph = (sb', eph', rm)"
    and "(x, BaseModel ''RemoveDoc'' (Some d) c) \<in> set es"
  shows "d \<notin> fst ` set sb'
       \<and> (\<forall>pre post. es = pre @ (x, BaseModel ''RemoveDoc'' (Some d) c) # post
              \<and> (\<forall>e \<in> set post. fst e = d \<longrightarrow> is_removal (snd e))
             \<longrightarrow> d \<notin> fst ` set eph')
       \<and> (d \<noteq> [] \<and> d \<in> fst ` set store_map
             \<longrightarrow> d \<in> set rm
               \<and> (\<forall>removed_ids kind content. set rm \<subseteq> set removed_ids
                     \<longrightarrow> final_put namespace store_map removed_ids (d, kind, content) = None))"
proof (intro conjI allI impI)
  show "d \<notin> fst ` set sb'" by (rule deleted_not_store_based [OF assms])
next
  fix pre post
  assume h: "es = pre @ (x, BaseModel ''RemoveDoc'' (Some d) c) # post
              \<and> (\<forall>e \<in> set post. fst e = d \<longrightarrow> is_removal (snd e))"
  from deleted_last_absent [of pre x d c post sb store_map eph sb' eph' rm] assms(1) h
  show "d \<notin> fst ` set eph'" by blast
next
  assume h: "d \<noteq> [] \<and> d \<in> fst ` set store_map"
  then show "d \<in> set rm" using deleted_recorded [OF assms] by blast
  fix removed_ids :: "string list" and kind content
  assume "set rm \<subseteq> set removed_ids"
  with h deleted_recorded [OF assms] have "d \<in> set removed_ids" by blast
  then show "final_put namespace store_map removed_ids (d, kind, content) = None"
    by (rule final_put_removed)
qed

theorem C2_delete_and_update_same_id_witness:
  "apply_enricher_output
       [(''#memoriesu1k1'', Plain ''likes pasta''),
        (''x'', BaseModel ''RemoveDoc'' (Some ''#memoriesu1k1'') '''')]
       [(''#memoriesu1k1'', ''Memory'', ''likes sushi'')]
       [(''#memoriesu1k1'', ex_item ''k1'' ''likes sushi'' None)] [] =
     ([], [], [''#memoriesu1k1''])
   \<and> (''x'', BaseModel ''RemoveDoc'' (Some ''#memoriesu1k1'') '''')
       \<in> set [(''#memoriesu1k1'', Plain ''likes pasta''),
               (''x'', BaseModel ''RemoveDoc'' (Some ''#memoriesu1k1'') '''')]
   \<and> ''#memoriesu1k1'' \<noteq> []
   \<and> ''#memoriesu1k1'' \<in> fst ` set [(''#memoriesu1k1'', ex_item ''k1'' ''likes sushi'' None)]
   \<and> final_put [''memories'', ''u1''] [(''#memoriesu1k1'', ex_item ''k1'' ''likes sushi'' None)]
        [''#memoriesu1k1''] (''#memoriesu1k1'', ''Memory'', ''likes pasta'') = None"
proof -
  have a: "apply_enricher_output
       [(''#memoriesu1k1'', Plain ''likes pasta''),
        (''x'', BaseModel ''RemoveDoc'' (Some ''#memoriesu1k1'') '''')]
       [(''#memoriesu1k1'', ''Memory'', ''likes sushi'')]
       [(''#memoriesu1k1'', ex_item ''k1'' ''likes sushi'' None)] [] =
     ([], [], [''#memoriesu1k1''])"
    by code_simp
  have b: "(''x'', BaseModel ''RemoveDoc'' (Some ''#memoriesu1k1'') '''')
       \<in> set [(''#memoriesu1k1'', Plain ''likes pasta''),
               (''x'', BaseModel ''RemoveDoc'' (Some ''#memoriesu1k1'') '''')]"
    by simp
  have c: "''#memoriesu1k1'' \<noteq> []"
    "''#memoriesu1k1'' \<in> fst ` set [(''#memoriesu1k1'', ex_item ''k1'' ''likes sushi'' None)]"
    by simp_all
  from C2_delete_and_update_same_id [OF a b, of "[''memories'', ''u1'']"] c
  have "final_put [''memories'', ''u1''] [(''#memoriesu1k1'', ex_item ''k1'' ''likes sushi'' None)]
        [''#memoriesu1k1''] (''#memoriesu1k1'', ''Memory'', ''likes pasta'') = None"
    by blast
  with a b c show ?thesis by blast
qed

text \<open>
  The claim as stated fails when the update follows the delete. For a store-backed
  record the update writes the identifier again as an ephemeral record, which is in the
  output of the phase. For an ephemeral record (here \<^verbatim>\<open>uu\<close>, inserted by the first
  enrichment, then deleted and updated by the phase) the record is in the final
  ephemeral set and the run puts it.
\<close>

theorem C2_delete_then_update_counterexample:
  "apply_enricher_output
       [(''x'', BaseModel ''RemoveDoc'' (Some ''#memoriesu1k1'') ''''),
        (''#memoriesu1k1'', Plain ''likes pasta'')]
       [(''#memoriesu1k1'', ''Memory'', ''likes sushi'')]
       [(''#memoriesu1k1'', ex_item ''k1'' ''likes sushi'' None)] [] =
     ([], [(''#memoriesu1k1'', ''Memory'', ''likes pasta'')], [''#memoriesu1k1''])
   \<and> last_ephemeral ex_run2 = [(''uu'', ''Memory'', ''has a cat'')]
   \<and> returned ex_run2 = [put_at [''memories'', ''u1''] ''uu'' ''Memory'' ''has a cat'']"
  by code_simp

text \<open>
  Claim C1, as the code has it. When an operation of the first enrichment or of a phase
  marks an identifier for deletion, the identifier leaves both working dictionaries at
  that operation and is never store-backed again in the run. It is absent from the
  candidate context of the next phase when no later operation of the same step writes
  it again, and a phase that does not write it keeps it absent. When it is a non-empty
  identifier of the store snapshot, it is retired from that step to the end of the run,
  and no record under it yields a put, whatever later phases write under it.
\<close>

theorem C1_retired_id_stays_retired:
  assumes "w1 = enrich_async extractor uuid4 self messages store_map w0
             \<and> es = first_enriched extractor uuid4 self messages w0
         \<or> w1 = phase_async extractor uuid4 self messages store_map phase w0
             \<and> es = phase_enriched extractor uuid4 self messages phase w0"
    and "(x, BaseModel ''RemoveDoc'' (Some d) c) \<in> set es"
    and "w2 = fold (phase_async extractor uuid4 self messages store_map) later w1"
  shows "(\<forall>sd ed rm.
            d \<notin> fst ` set (fst (apply_extracted store_map
                                   (x, BaseModel ''RemoveDoc'' (Some d) c) (sd, ed, rm)))
          \<and> d \<notin> fst ` set (fst (snd (apply_extracted store_map
                                   (x, BaseModel ''RemoveDoc'' (Some d) c) (sd, ed, rm)))))
       \<and> d \<notin> fst ` set (store_based_of w1) \<and> d \<notin> fst ` set (store_based_of w2)
       \<and> (\<forall>pre post. es = pre @ (x, BaseModel ''RemoveDoc'' (Some d) c) # post
              \<and> (\<forall>e \<in> set post. fst e = d \<longrightarrow> is_removal (snd e))
             \<longrightarrow> d \<notin> fst ` set (context_of w1))
       \<and> (\<forall>w ph. d \<notin> fst ` set (context_of w)
              \<and> (\<forall>e \<in> set (phase_enriched extractor uuid4 self messages ph w).
                     fst e = d \<longrightarrow> is_removal (snd e))
             \<longrightarrow> d \<notin> fst ` set (context_of
                                    (phase_async extractor uuid4 self messages store_map ph w)))
       \<and> (d \<noteq> [] \<and> d \<in> fst ` set store_map
             \<longrightarrow> d \<in> set (removed_of w1) \<and> d \<in> set (removed_of w2)
               \<and> (\<forall>kind content.
                     final_put namespace store_map (removed_of w2) (d, kind, content) = None)
               \<and> final_puts namespace store_map (removed_of w2) (context_of w2) =
                 final_puts namespace store_map (removed_of w2)
                   (filter (\<lambda>m. fst m \<noteq> d) (context_of w2)))"
proof -
  have ab: "absorbs store_map es w0 w1"
  proof (rule disjE [OF assms(1)])
    assume "w1 = enrich_async extractor uuid4 self messages store_map w0
             \<and> es = first_enriched extractor uuid4 self messages w0"
    then show ?thesis by (simp add: absorbs_enrich_async)
  next
    assume "w1 = phase_async extractor uuid4 self messages store_map phase w0
             \<and> es = phase_enriched extractor uuid4 self messages phase w0"
    then show ?thesis by (simp add: absorbs_phase_async)
  qed
  note del = absorbs_deleted [OF ab assms(2)]
  have "fst ` set (store_based_of w2) \<subseteq> fst ` set (store_based_of w1)"
    unfolding assms(3) by (rule phases_store_based)
  with del(1) have sb2: "d \<notin> fst ` set (store_based_of w2)" by (rule contra_subsetD [rotated])
  have now: "\<forall>sd ed rm.
            d \<notin> fst ` set (fst (apply_extracted store_map
                                   (x, BaseModel ''RemoveDoc'' (Some d) c) (sd, ed, rm)))
          \<and> d \<notin> fst ` set (fst (snd (apply_extracted store_map
                                   (x, BaseModel ''RemoveDoc'' (Some d) c) (sd, ed, rm))))"
    by (simp add: pop_removal_def keys_dict_pop)
  have ctx: "\<forall>pre post. es = pre @ (x, BaseModel ''RemoveDoc'' (Some d) c) # post
              \<and> (\<forall>e \<in> set post. fst e = d \<longrightarrow> is_removal (snd e))
             \<longrightarrow> d \<notin> fst ` set (context_of w1)"
  proof (intro allI impI, elim conjE)
    fix pre post
    assume "es = pre @ (x, BaseModel ''RemoveDoc'' (Some d) c) # post"
      and "\<forall>e \<in> set post. fst e = d \<longrightarrow> is_removal (snd e)"
    then show "d \<notin> fst ` set (context_of w1)" by (rule del(2))
  qed
  have keep: "\<forall>w ph. d \<notin> fst ` set (context_of w)
              \<and> (\<forall>e \<in> set (phase_enriched extractor uuid4 self messages ph w).
                     fst e = d \<longrightarrow> is_removal (snd e))
             \<longrightarrow> d \<notin> fst ` set (context_of
                                    (phase_async extractor uuid4 self messages store_map ph w))"
  proof (intro allI impI, elim conjE)
    fix w ph
    assume "d \<notin> fst ` set (context_of w)"
      and "\<forall>e \<in> set (phase_enriched extractor uuid4 self messages ph w).
                     fst e = d \<longrightarrow> is_removal (snd e)"
    with absorbs_phase_async
    show "d \<notin> fst ` set (context_of (phase_async extractor uuid4 self messages store_map ph w))"
      by (rule absorbs_absent)
  qed
  have ret: "d \<noteq> [] \<and> d \<in> fst ` set store_map
             \<longrightarrow> d \<in> set (removed_of w1) \<and> d \<in> set (removed_of w2)
               \<and> (\<forall>kind content.
                     final_put namespace store_map (removed_of w2) (d, kind, content) = None)
               \<and> final_puts namespace store_map (removed_of w2) (context_of w2) =
                 final_puts namespace store_map (removed_of w2)
                   (filter (\<lambda>m. fst m \<noteq> d) (context_of w2))"
  proof (intro impI, elim conjE)
    assume "d \<noteq> []" and "d \<in> fst ` set store_map"
    then have r1: "d \<in> set (removed_of w1)" by (rule del(3))
    have "set (removed_of w1) \<subseteq> set (removed_of w2)"
      unfolding assms(3) by (rule phases_removed)
    with r1 have r2: "d \<in> set (removed_of w2)" by (rule subsetD [rotated])
    have p: "\<forall>kind content.
         final_put namespace store_map (removed_of w2) (d, kind, content) = None"
      by (simp add: final_put_removed [OF r2])
    show "d \<in> set (removed_of w1) \<and> d \<in> set (removed_of w2)
               \<and> (\<forall>kind content.
                     final_put namespace store_map (removed_of w2) (d, kind, content) = None)
               \<and> final_puts namespace store_map (removed_of w2) (context_of w2) =
                 final_puts namespace store_map (removed_of w2)
                   (filter (\<lambda>m. fst m \<noteq> d) (context_of w2))"
      using r1 r2 p final_puts_without [OF r2] by (intro conjI)
  qed
  from now del(1) sb2 ctx keep ret show ?thesis by (intro conjI)
qed

theorem C1_retired_id_stays_retired_witness:
  "(''#memoriesu1k2'', BaseModel ''RemoveDoc'' (Some ''#memoriesu1k2'') '''')
       \<in> set (first_enriched ex_extractor4 ex_uuid4 (ex_self [ex_phase]) [''hello''] ex_w0)
   \<and> ''#memoriesu1k2'' \<noteq> [] \<and> ''#memoriesu1k2'' \<in> fst ` set ex_store_map1
   \<and> ''#memoriesu1k2'' \<notin> fst ` set (store_based_of ex_w2)
   \<and> ''#memoriesu1k2'' \<in> set (removed_of ex_w2)
   \<and> context_of ex_w2 =
       [(''#memoriesu1k1'', ''Memory'', ''likes pasta''), (''#memoriesu1k3'', ''Memory'', ''keep''),
        (''uuuu'', ''Memory'', ''has a dog''), (''#memoriesu1k2'', ''Memory'', ''old again'')]
   \<and> final_put [''memories'', ''u1''] ex_store_map1 (removed_of ex_w2)
        (''#memoriesu1k2'', ''Memory'', ''old again'') = None
   \<and> returned ex_run4 =
       [put_at [''memories'', ''u1''] ''k1'' ''Memory'' ''likes pasta'',
        put_at [''memories'', ''u1''] ''uuuu'' ''Memory'' ''has a dog'']"
proof -
  have a: "ex_w1 = enrich_async ex_extractor4 ex_uuid4 (ex_self [ex_phase]) [''hello''] ex_store_map1 ex_w0
             \<and> first_enriched ex_extractor4 ex_uuid4 (ex_self [ex_phase]) [''hello''] ex_w0
               = first_enriched ex_extractor4 ex_uuid4 (ex_self [ex_phase]) [''hello''] ex_w0
         \<or> ex_w1 = phase_async ex_extractor4 ex_uuid4 (ex_self [ex_phase]) [''hello''] ex_store_map1 ex_phase ex_w0
             \<and> first_enriched ex_extractor4 ex_uuid4 (ex_self [ex_phase]) [''hello''] ex_w0
               = phase_enriched ex_extractor4 ex_uuid4 (ex_self [ex_phase]) [''hello''] ex_phase ex_w0"
    by (simp add: ex_w1_def)
  have b: "(''#memoriesu1k2'', BaseModel ''RemoveDoc'' (Some ''#memoriesu1k2'') '''')
       \<in> set (first_enriched ex_extractor4 ex_uuid4 (ex_self [ex_phase]) [''hello''] ex_w0)"
    by code_simp
  have c: "''#memoriesu1k2'' \<noteq> []" "''#memoriesu1k2'' \<in> fst ` set ex_store_map1"
    by code_simp+
  note t = C1_retired_id_stays_retired [OF a b ex_w2_def, of "[''memories'', ''u1'']"]
  have d: "''#memoriesu1k2'' \<notin> fst ` set (store_based_of ex_w2)" using t by blast
  have e: "''#memoriesu1k2'' \<in> set (removed_of ex_w2)"
    "final_put [''memories'', ''u1''] ex_store_map1 (removed_of ex_w2)
        (''#memoriesu1k2'', ''Memory'', ''old again'') = None"
    using t c by blast+
  have f: "context_of ex_w2 =
       [(''#memoriesu1k1'', ''Memory'', ''likes pasta''), (''#memoriesu1k3'', ''Memory'', ''keep''),
        (''uuuu'', ''Memory'', ''has a dog''), (''#memoriesu1k2'', ''Memory'', ''old again'')]"
    by code_simp
  have g: "returned ex_run4 =
       [put_at [''memories'', ''u1''] ''k1'' ''Memory'' ''likes pasta'',
        put_at [''memories'', ''u1''] ''uuuu'' ''Memory'' ''has a dog'']"
    by code_simp
  from b c d e f g show ?thesis by (intro conjI)
qed

text \<open>
  The claim as stated fails for an identifier that was never in the store: deleted by
  one phase (the run that stops there keeps no record and puts nothing), it is written
  again by the next phase as a new ephemeral record, which the run puts.
\<close>

theorem C1_reused_ephemeral_id_counterexample:
  "last_ephemeral (ex_run5 []) = [(''uu'', ''Memory'', ''has a dog'')]
   \<and> last_ephemeral (ex_run5 [ex_phase]) = [] \<and> returned (ex_run5 [ex_phase]) = []
   \<and> last_removed_ids (ex_run5 [ex_phase, ex_phase2]) = []
   \<and> last_ephemeral (ex_run5 [ex_phase, ex_phase2]) = [(''uu'', ''Memory'', ''has a cat'')]
   \<and> returned (ex_run5 [ex_phase, ex_phase2]) =
       [put_at [''memories'', ''u1''] ''uu'' ''Memory'' ''has a cat'']"
  by code_simp

text \<open>
  Claim C7. When the extractor proposes no operation in any step of a run (every step
  only passes the existing records through), the run returns an empty list of puts,
  issues no put and no delete, and leaves the store as it was; its store-backed records
  are those of the snapshot, it has no ephemeral record and retires no identifier.
\<close>

theorem C7_no_operations_no_mutations:
  assumes "store_map = sort_results uuid5 srl (query_limit self)"
    and "\<forall>ops \<in> set (run_results extractor uuid4 self messages store_map n). ops = []"
    and "r = ainvoke extractor uuid4 uuid5 self namespace messages srl store n"
  shows "returned r = [] \<and> issued r = [] \<and> store_after r = store
       \<and> last_store_based r = seed_store_based store_map
       \<and> last_ephemeral r = [] \<and> last_removed_ids r = []"
proof -
  have dm: "distinct (map fst store_map)" unfolding assms(1) by (rule distinct_sort_results)
  have d: "distinct (map fst (seed_store_based store_map))"
    by (simp add: ids_seed_store_based dm)
  have first: "first_results extractor uuid4 self messages (seed_store_based store_map, [], [], n) = []"
    using assms(2) by (simp add: run_results_def)
  note w1 = silent_enrich_async [OF first d, of store_map]
  have "\<forall>ops \<in> set (later_results extractor uuid4 self messages store_map (phases self)
                        (seed_store_based store_map, [], [], Suc n)). ops = []"
    using assms(2) by (simp add: run_results_def w1)
  from silent_phases [OF d this]
  have w: "fold (phase_async extractor uuid4 self messages store_map) (phases self)
             (enrich_async extractor uuid4 self messages store_map
                (seed_store_based store_map, [], [], n))
           = (seed_store_based store_map, [], [], Suc n + length (phases self))"
    by (simp add: w1)
  show ?thesis
    unfolding assms(3) ainvoke_unfold assms(1) [symmetric] w
    by (simp add: final_puts_seed [OF dm])
qed

theorem C7_no_operations_no_mutations_witness:
  "run_results ex_silent ex_uuid4 (ex_self [ex_phase, ex_phase2]) [''hello''] ex_store_map1 0
     = [[], [], []]
   \<and> returned ex_run6 = [] \<and> issued ex_run6 = [] \<and> store_after ex_run6 = ex_store
   \<and> last_store_based ex_run6 =
       [(''#memoriesu1k1'', ''Memory'', ''likes sushi''), (''#memoriesu1k3'', ''Memory'', ''keep''),
        (''#memoriesu1k2'', ''Memory'', ''old'')]"
proof -
  have sm: "ex_store_map1 = sort_results ex_uuid5 ex_srl1 (query_limit (ex_self [ex_phase, ex_phase2]))"
    by (simp add: ex_store_map1_def ex_self_def)
  have rr: "run_results ex_silent ex_uuid4 (ex_self [ex_phase, ex_phase2]) [''hello''] ex_store_map1 0
     = [[], [], []]"
    by code_simp
  then have h: "\<forall>ops \<in> set (run_results ex_silent ex_uuid4 (ex_self [ex_phase, ex_phase2])
                               [''hello''] ex_store_map1 0). ops = []"
    by simp
  note t = C7_no_operations_no_mutations [OF sm h ex_run6_def]
  have sb: "seed_store_based ex_store_map1 =
       [(''#memoriesu1k1'', ''Memory'', ''likes sushi''), (''#memoriesu1k3'', ''Memory'', ''keep''),
        (''#memoriesu1k2'', ''Memory'', ''old'')]"
    by code_simp
  from t have a: "returned ex_run6 = []" "issued ex_run6 = []" "store_after ex_run6 = ex_store"
    "last_store_based ex_run6 = seed_store_based ex_store_map1"
    by simp_all
  from rr a show ?thesis unfolding sb by (intro conjI)
qed

text \<open>
  Claim C6. A store-backed record that no operation of the run references (no operation
  that the extractor proposes in any step is filed under its identifier or deletes it)
  is in the final store-backed set with the kind and content of the snapshot, is neither
  retired nor ephemeral, and yields no put. A store-backed record whose final kind and
  content are those of the snapshot yields no put, and the operation that proposes a
  store-backed record again with its own kind and content leaves the working sets as
  they are. The list that the run returns holds the puts of its final records, nothing
  else.
\<close>

theorem C6_untouched_record_unchanged:
  assumes "\<forall>t. uuid5 t \<noteq> []"
    and "store_map = sort_results uuid5 srl (query_limit self)"
    and "r = ainvoke extractor uuid4 uuid5 self namespace messages srl store n"
    and "(sid, item) \<in> set store_map"
    and "k = v_kind (it_value item)" and "c = v_content (it_value item)"
  shows "((\<forall>ops \<in> set (run_results extractor uuid4 self messages store_map n).
             \<forall>e \<in> set ops. \<not> references sid e)
           \<longrightarrow> (sid, k, c) \<in> set (last_store_based r)
             \<and> sid \<notin> set (last_removed_ids r) \<and> sid \<notin> fst ` set (last_ephemeral r)
             \<and> final_put namespace store_map (last_removed_ids r) (sid, k, c) = None)
       \<and> ((sid, k, c) \<in> set (last_store_based r)
           \<longrightarrow> final_put namespace store_map (last_removed_ids r) (sid, k, c) = None)
       \<and> returned r = final_puts namespace store_map (last_removed_ids r)
                        (last_store_based r @ last_ephemeral r)
       \<and> (\<forall>sb eph p. distinct (map fst sb) \<and> distinct (map fst eph) \<and> (sid, k, c) \<in> set sb
              \<and> (p = Plain c \<or> (\<exists>rid. p = BaseModel k rid c \<and> k \<noteq> ''RemoveDoc''))
            \<longrightarrow> apply_enricher_output [(sid, p)] sb store_map eph = (sb, eph, []))"
proof -
  let ?start = "(seed_store_based store_map, [], [], n)"
  let ?w1 = "enrich_async extractor uuid4 self messages store_map ?start"
  let ?w = "fold (phase_async extractor uuid4 self messages store_map) (phases self) ?w1"
  have dm: "distinct (map fst store_map)" unfolding assms(2) by (rule distinct_sort_results)
  have ne: "[] \<notin> fst ` set store_map"
    unfolding assms(2) by (rule keys_sort_results_nonempty [OF assms(1)])
  have inv0: "work_inv (fst ` set store_map) ?start" by (rule work_inv_seed [OF dm])
  have inv1: "work_inv (fst ` set store_map) ?w1" by (rule work_inv_enrich_async [OF inv0 ne])
  have inv: "work_inv (fst ` set store_map) ?w" by (rule work_inv_phases [OF ne inv1])
  have r: "returned r = final_puts namespace store_map (removed_of ?w) (store_based_of ?w @ ephemeral_of ?w)"
    "last_store_based r = store_based_of ?w" "last_ephemeral r = ephemeral_of ?w"
    "last_removed_ids r = removed_of ?w"
    unfolding assms(3) ainvoke_unfold assms(2) [symmetric]
    by (cases ?w; simp add: store_based_of_def ephemeral_of_def removed_of_def)+
  have g: "dict_get store_map sid = Some item" using dm assms(4) by (simp add: dict_get_def)
  have same: "(sid, k, c) \<in> set (last_store_based r)
      \<longrightarrow> final_put namespace store_map (last_removed_ids r) (sid, k, c) = None"
  proof (rule impI)
    assume that: "(sid, k, c) \<in> set (last_store_based r)"
    have "fst (sid, k, c) \<in> fst ` set (store_based_of ?w)" using that unfolding r(2) by (rule imageI)
    then have "sid \<notin> set (removed_of ?w)" using work_inv_context(4) [OF inv] by auto
    then show "final_put namespace store_map (last_removed_ids r) (sid, k, c) = None"
      by (simp add: final_put_def r(4) g assms(5,6))
  qed
  have kept: "(\<forall>ops \<in> set (run_results extractor uuid4 self messages store_map n).
             \<forall>e \<in> set ops. \<not> references sid e)
           \<longrightarrow> (sid, k, c) \<in> set (last_store_based r)
             \<and> sid \<notin> set (last_removed_ids r) \<and> sid \<notin> fst ` set (last_ephemeral r)
             \<and> final_put namespace store_map (last_removed_ids r) (sid, k, c) = None"
  proof (rule impI)
    assume h: "\<forall>ops \<in> set (run_results extractor uuid4 self messages store_map n).
             \<forall>e \<in> set ops. \<not> references sid e"
    have h1: "\<forall>e \<in> set (first_results extractor uuid4 self messages ?start). \<not> references sid e"
      and h2: "\<forall>ops \<in> set (later_results extractor uuid4 self messages store_map (phases self) ?w1).
                 \<forall>e \<in> set ops. \<not> references sid e"
      using h by (simp_all add: run_results_def)
    have m0: "(sid, k, c) \<in> set (store_based_of ?start)"
      using seed_member [OF assms(4)] by (simp add: store_based_of_def assms(5,6))
    have m1: "(sid, k, c) \<in> set (store_based_of ?w1)"
      by (rule absorbs_kept [OF absorbs_enrich_async inv0 m0
            first_enriched_leave_alone [OF h1 inv0 m0]])
    have m: "(sid, k, c) \<in> set (store_based_of ?w)"
      by (rule kept_phases [OF ne inv1 m1 h2])
    have i: "fst (sid, k, c) \<in> fst ` set (store_based_of ?w)" using m by (rule imageI)
    have "sid \<notin> set (removed_of ?w)" using i work_inv_context(4) [OF inv] by auto
    moreover have "sid \<notin> fst ` set (ephemeral_of ?w)" using i work_inv_context(3) [OF inv] by auto
    ultimately show "(sid, k, c) \<in> set (last_store_based r)
             \<and> sid \<notin> set (last_removed_ids r) \<and> sid \<notin> fst ` set (last_ephemeral r)
             \<and> final_put namespace store_map (last_removed_ids r) (sid, k, c) = None"
      using m same by (simp add: r)
  qed
  have again: "\<forall>sb eph p. distinct (map fst sb) \<and> distinct (map fst eph) \<and> (sid, k, c) \<in> set sb
              \<and> (p = Plain c \<or> (\<exists>rid. p = BaseModel k rid c \<and> k \<noteq> ''RemoveDoc''))
            \<longrightarrow> apply_enricher_output [(sid, p)] sb store_map eph = (sb, eph, [])"
    by (intro allI impI, elim conjE) (rule reproposed_unchanged)
  have ret: "returned r = final_puts namespace store_map (last_removed_ids r)
                        (last_store_based r @ last_ephemeral r)"
    by (simp add: r)
  from kept same ret again show ?thesis by (intro conjI)
qed

theorem C6_untouched_record_unchanged_witness:
  "(\<forall>t. ex_uuid5 t \<noteq> [])
   \<and> (''#memoriesu1k3'', ex_item ''k3'' ''keep'' (Some (7/10))) \<in> set ex_store_map1
   \<and> run_results ex_extractor4 ex_uuid4 (ex_self [ex_phase]) [''hello''] ex_store_map1 0 =
       [[(''#memoriesu1k1'', BaseModel ''Memory'' None ''likes pasta''),
         (''#memoriesu1k2'', BaseModel ''RemoveDoc'' (Some ''#memoriesu1k2'') ''''),
         (''uuuu'', BaseModel ''Memory'' None ''has a dog'')],
        [(''#memoriesu1k2'', BaseModel ''Memory'' None ''old again'')]]
   \<and> (''#memoriesu1k3'', ''Memory'', ''keep'') \<in> set (last_store_based ex_run4)
   \<and> ''#memoriesu1k3'' \<notin> set (last_removed_ids ex_run4)
   \<and> final_put [''memories'', ''u1''] ex_store_map1 (last_removed_ids ex_run4)
        (''#memoriesu1k3'', ''Memory'', ''keep'') = None
   \<and> apply_enricher_output [(''#memoriesu1k3'', BaseModel ''Memory'' None ''keep'')]
        [(''#memoriesu1k3'', ''Memory'', ''keep'')] ex_store_map1 [] =
       ([(''#memoriesu1k3'', ''Memory'', ''keep'')], [], [])"
proof -
  have h: "\<forall>t. ex_uuid5 t \<noteq> []" by (simp add: ex_uuid5_def)
  have sm: "ex_store_map1 = sort_results ex_uuid5 ex_srl1 (query_limit (ex_self [ex_phase]))"
    by (simp add: ex_store_map1_def ex_self_def)
  have i: "(''#memoriesu1k3'', ex_item ''k3'' ''keep'' (Some (7/10))) \<in> set ex_store_map1"
    by code_simp
  have kc: "''Memory'' = v_kind (it_value (ex_item ''k3'' ''keep'' (Some (7/10))))"
    "''keep'' = v_content (it_value (ex_item ''k3'' ''keep'' (Some (7/10))))"
    by (simp_all add: ex_item_def)
  have rr: "run_results ex_extractor4 ex_uuid4 (ex_self [ex_phase]) [''hello''] ex_store_map1 0 =
       [[(''#memoriesu1k1'', BaseModel ''Memory'' None ''likes pasta''),
         (''#memoriesu1k2'', BaseModel ''RemoveDoc'' (Some ''#memoriesu1k2'') ''''),
         (''uuuu'', BaseModel ''Memory'' None ''has a dog'')],
        [(''#memoriesu1k2'', BaseModel ''Memory'' None ''old again'')]]"
    by code_simp
  have h1: "\<forall>ops \<in> set (run_results ex_extractor4 ex_uuid4 (ex_self [ex_phase]) [''hello'']
                            ex_store_map1 0).
              \<forall>e \<in> set ops. \<not> references ''#memoriesu1k3'' e"
    unfolding rr by (simp add: references_def is_removal_def)
  note t = C6_untouched_record_unchanged [OF h sm ex_run4_def i kc]
  have a: "(''#memoriesu1k3'', ''Memory'', ''keep'') \<in> set (last_store_based ex_run4)
     \<and> ''#memoriesu1k3'' \<notin> set (last_removed_ids ex_run4)
     \<and> final_put [''memories'', ''u1''] ex_store_map1 (last_removed_ids ex_run4)
        (''#memoriesu1k3'', ''Memory'', ''keep'') = None"
    using t h1 by blast
  have "distinct (map fst [(''#memoriesu1k3'', ''Memory'', ''keep'')])
      \<and> distinct (map fst ([] :: string mem list))
      \<and> (''#memoriesu1k3'', ''Memory'', ''keep'') \<in> set [(''#memoriesu1k3'', ''Memory'', ''keep'')]
      \<and> (BaseModel ''Memory'' None ''keep'' = Plain ''keep''
         \<or> (\<exists>rid. BaseModel ''Memory'' None ''keep'' = BaseModel ''Memory'' rid ''keep''
               \<and> ''Memory'' \<noteq> ''RemoveDoc''))"
    by simp
  with t have b: "apply_enricher_output [(''#memoriesu1k3'', BaseModel ''Memory'' None ''keep'')]
        [(''#memoriesu1k3'', ''Memory'', ''keep'')] ex_store_map1 [] =
       ([(''#memoriesu1k3'', ''Memory'', ''keep'')], [], [])"
    by blast
  from a have a1: "(''#memoriesu1k3'', ''Memory'', ''keep'') \<in> set (last_store_based ex_run4)"
    and a2: "''#memoriesu1k3'' \<notin> set (last_removed_ids ex_run4)"
    and a3: "final_put [''memories'', ''u1''] ex_store_map1 (last_removed_ids ex_run4)
        (''#memoriesu1k3'', ''Memory'', ''keep'') = None"
    by simp_all
  from h i rr a1 a2 a3 b show ?thesis by (intro conjI)
qed

text \<open>
  Claim C8 (the code departs from it). The two paths compute the same final record sets,
  the same puts and the same deletes, and they return the same list when the store
  accepts every write of the run. When the store refuses one of them they part:
  \<^verbatim>\<open>invoke\<close> never reads the futures of its writes, so it returns the list of puts all the
  same, also the puts that were refused, while \<^verbatim>\<open>ainvoke\<close> awaits its writes and raises,
  returning nothing. In \<^verbatim>\<open>invoke\<close> itself the futures of the searches are read.
\<close>

theorem C8_invoke_drops_write_failures:
  "\<exists>r. invoke_fallible fails extractor uuid4 uuid5 self namespace messages srl store n = Inr r
     \<and> ainvoke_fallible fails extractor uuid4 uuid5 self namespace messages srl store n =
         (if list_ex fails (issued r) then Inl StoreWriteError else Inr r)"
proof -
  let ?store_map = "sort_results uuid5 srl (query_limit self)"
  obtain sb eph rem n' where w:
    "fold (phase_async extractor uuid4 self messages ?store_map) (phases self)
       (enrich_async extractor uuid4 self messages ?store_map (seed_store_based ?store_map, [], [], n))
     = (sb, eph, rem, n')"
    by (metis prod_cases4)
  show ?thesis
    by (simp add: invoke_fallible_def ainvoke_fallible_def enrich_sync_async phase_sync_async
        w Let_def asyncio_gather_def executor_submit_none_refused)
qed

theorem C8_invoke_drops_write_failures_witness:
  "ex_ainvoke8 = Inl StoreWriteError
   \<and> (\<exists>r. ex_invoke8 = Inr r
        \<and> returned r =
            [put_at [''memories'', ''u1''] ''k1'' ''Memory'' ''likes pasta'',
             put_at [''memories'', ''u1''] ''uuuu'' ''Memory'' ''has a dog'']
        \<and> issued r =
            [Put (put_at [''memories'', ''u1''] ''k1'' ''Memory'' ''likes pasta''),
             Put (put_at [''memories'', ''u1''] ''uuuu'' ''Memory'' ''has a dog''),
             Delete ([''memories'', ''u1''], ''k2'')]
        \<and> store_after r ([''memories'', ''u1''], ''k1'') =
            Some \<lparr>v_kind = ''Memory'', v_content = ''likes sushi''\<rparr>
        \<and> store_after r ([''memories'', ''u1''], ''uuuu'') = None
        \<and> store_after r ([''memories'', ''u1''], ''k2'') = None)"
proof -
  from C8_invoke_drops_write_failures
    [of ex_refuses_puts ex_extractor8 ex_uuid4 ex_uuid5 "ex_self []" "[''memories'', ''u1'']"
        "[''hello'']" ex_srl1 ex_store 0]
  obtain r where r: "ex_invoke8 = Inr r"
    and a: "ex_ainvoke8 = (if list_ex ex_refuses_puts (issued r) then Inl StoreWriteError else Inr r)"
    unfolding ex_invoke8_def ex_ainvoke8_def by blast
  have "(case ex_invoke8 of Inl e \<Rightarrow> [] | Inr r \<Rightarrow> returned r) =
            [put_at [''memories'', ''u1''] ''k1'' ''Memory'' ''likes pasta'',
             put_at [''memories'', ''u1''] ''uuuu'' ''Memory'' ''has a dog'']"
    by code_simp
  then have ret: "returned r =
            [put_at [''memories'', ''u1''] ''k1'' ''Memory'' ''likes pasta'',
             put_at [''memories'', ''u1''] ''uuuu'' ''Memory'' ''has a dog'']"
    by (simp add: r)
  have "(case ex_invoke8 of Inl e \<Rightarrow> [] | Inr r \<Rightarrow> issued r) =
            [Put (put_at [''memories'', ''u1''] ''k1'' ''Memory'' ''likes pasta''),
             Put (put_at [''memories'', ''u1''] ''uuuu'' ''Memory'' ''has a dog''),
             Delete ([''memories'', ''u1''], ''k2'')]"
    by code_simp
  then have iss: "issued r =
            [Put (put_at [''memories'', ''u1''] ''k1'' ''Memory'' ''likes pasta''),
             Put (put_at [''memories'', ''u1''] ''uuuu'' ''Memory'' ''has a dog''),
             Delete ([''memories'', ''u1''], ''k2'')]"
    by (simp add: r)
  have "(case ex_invoke8 of Inl e \<Rightarrow> None | Inr r \<Rightarrow> store_after r ([''memories'', ''u1''], ''k1'')) =
            Some \<lparr>v_kind = ''Memory'', v_content = ''likes sushi''\<rparr>"
    "(case ex_invoke8 of Inl e \<Rightarrow> None | Inr r \<Rightarrow> store_after r ([''memories'', ''u1''], ''uuuu'')) = None"
    "(case ex_invoke8 of Inl e \<Rightarrow> Some \<lparr>v_kind = [], v_content = []\<rparr>
        | Inr r \<Rightarrow> store_after r ([''memories'', ''u1''], ''k2'')) = None"
    by code_simp+
  then have st: "store_after r ([''memories'', ''u1''], ''k1'') =
            Some \<lparr>v_kind = ''Memory'', v_content = ''likes sushi''\<rparr>"
    "store_after r ([''memories'', ''u1''], ''uuuu'') = None"
    "store_after r ([''memories'', ''u1''], ''k2'') = None"
    by (simp_all add: r)
  have "list_ex ex_refuses_puts (issued r)" by (simp add: iss ex_refuses_puts_def)
  with a have "ex_ainvoke8 = Inl StoreWriteError" by simp
  with r ret iss st show ?thesis by (intro conjI exI [of _ r])
qed

text \<open>
  Claim C10. Given a list of strings, \<^verbatim>\<open>_prepare_existing\<close> wraps every string in the
  first schema, with the kind \<^verbatim>\<open>Memory\<close>, under the next identifiers of the random
  source, one for each string: the identifiers depend on the number of strings and on
  the state of the source, not on the strings. When the source never repeats, the
  identifiers of one call are pairwise distinct, and no identifier of a later call is an
  identifier of an earlier one, also for the same strings.
\<close>

theorem C10_strings_get_fresh_uuids:
  assumes "inj uuid4"
    and "prepare_existing self uuid4 (Some (Strings exs)) n = (prepared, n1)"
    and "n1 \<le> n'"
    and "prepare_existing self uuid4 (Some (Strings exs')) n' = (prepared', n2)"
  shows "map (\<lambda>t. snd (snd t)) prepared =
           map (\<lambda>ex. BaseModel (schema_name (first_schema self)) None
                       (schema_dump (first_schema self) ex)) exs
       \<and> map (\<lambda>t. fst (snd t)) prepared = replicate (length exs) ''Memory''
       \<and> map fst prepared = map uuid4 [n ..< n + length exs] \<and> n1 = n + length exs
       \<and> (\<forall>ys. length ys = length exs
              \<longrightarrow> map fst (fst (prepare_existing self uuid4 (Some (Strings ys)) n)) = map fst prepared)
       \<and> distinct (map fst prepared)
       \<and> set (map fst prepared) \<inter> set (map fst prepared') = {}"
proof -
  have p: "prepared = fst (prepare_existing self uuid4 (Some (Strings exs)) n)"
    and p': "prepared' = fst (prepare_existing self uuid4 (Some (Strings exs')) n')"
    and n1: "n1 = n + length exs"
    using assms(2,4) by simp_all
  have ids: "map fst prepared = map uuid4 [n ..< n + length exs]"
    unfolding p by (rule prepare_strings_ids)
  have ids': "map fst prepared' = map uuid4 [n' ..< n' + length exs']"
    unfolding p' by (rule prepare_strings_ids)
  have "inj_on uuid4 (set [n ..< n + length exs])"
    by (rule inj_on_subset [OF assms(1)]) simp
  then have d: "distinct (map fst prepared)"
    unfolding ids by (simp add: distinct_map)
  have "n + length exs \<le> n'" using assms(3) by (simp add: n1)
  then have "{n ..< n + length exs} \<inter> {n' ..< n' + length exs'} = {}" by auto
  then have "uuid4 ` {n ..< n + length exs} \<inter> uuid4 ` {n' ..< n' + length exs'} = {}"
    by (simp add: image_Int [OF assms(1), symmetric])
  then have disj: "set (map fst prepared) \<inter> set (map fst prepared') = {}"
    unfolding ids ids' by simp
  have indep: "\<forall>ys. length ys = length exs
     \<longrightarrow> map fst (fst (prepare_existing self uuid4 (Some (Strings ys)) n)) = map fst prepared"
    by (simp add: ids prepare_strings_ids del: prepare_existing.simps)
  show ?thesis
    using prepare_strings_values [of self uuid4 exs n] prepare_strings_kinds [of self uuid4 exs n]
      ids n1 indep d disj
    unfolding p [symmetric] by (intro conjI)
qed

theorem C10_strings_get_fresh_uuids_witness:
  "inj ex_uuid4
   \<and> prepare_existing ex_enricher ex_uuid4 (Some (Strings [''likes sushi'', ''has a dog''])) 1 =
       ([(''uu'', ''Memory'', BaseModel ''Memory'' None ''likes sushi''),
         (''uuu'', ''Memory'', BaseModel ''Memory'' None ''has a dog'')], 3)
   \<and> (3::nat) \<le> 4
   \<and> prepare_existing ex_enricher ex_uuid4 (Some (Strings [''likes sushi'', ''has a dog''])) 4 =
       ([(''uuuuu'', ''Memory'', BaseModel ''Memory'' None ''likes sushi''),
         (''uuuuuu'', ''Memory'', BaseModel ''Memory'' None ''has a dog'')], 6)
   \<and> set (map fst [(''uu'', ''Memory'', BaseModel ''Memory'' None ''likes sushi''),
                    (''uuu'', ''Memory'', BaseModel ''Memory'' None ''has a dog'')])
       \<inter> set (map fst [(''uuuuu'', ''Memory'', BaseModel ''Memory'' None ''likes sushi''),
                        (''uuuuuu'', ''Memory'', BaseModel ''Memory'' None ''has a dog'')]) = {}"
proof -
  have "ex_uuid4 a = ex_uuid4 b \<Longrightarrow> a = b" for a b
    using arg_cong [of "ex_uuid4 a" "ex_uuid4 b" length] by (simp add: ex_uuid4_def)
  then have h: "inj ex_uuid4" by (rule injI)
  have a: "prepare_existing ex_enricher ex_uuid4 (Some (Strings [''likes sushi'', ''has a dog''])) 1 =
       ([(''uu'', ''Memory'', BaseModel ''Memory'' None ''likes sushi''),
         (''uuu'', ''Memory'', BaseModel ''Memory'' None ''has a dog'')], 3)"
    by code_simp
  have b: "(3::nat) \<le> 4" by simp
  have c: "prepare_existing ex_enricher ex_uuid4 (Some (Strings [''likes sushi'', ''has a dog''])) 4 =
       ([(''uuuuu'', ''Memory'', BaseModel ''Memory'' None ''likes sushi''),
         (''uuuuuu'', ''Memory'', BaseModel ''Memory'' None ''has a dog'')], 6)"
    by code_simp
  note t = C10_strings_get_fresh_uuids [OF h a b c]
  have e: "set (map fst [(''uu'', ''Memory'', BaseModel ''Memory'' None ''likes sushi''),
                    (''uuu'', ''Memory'', BaseModel ''Memory'' None ''has a dog'')])
       \<inter> set (map fst [(''uuuuu'', ''Memory'', BaseModel ''Memory'' None ''likes sushi''),
                        (''uuuuuu'', ''Memory'', BaseModel ''Memory'' None ''has a dog'')]) = {}"
    using t by (elim conjE)
  from h a b c e show ?thesis by (intro conjI)
qed

end
